theory Spec2Isabelle
  imports Complex_Main "HOL-Library.Extended_Nat"
begin

section \<open>The seeded pseudo-random number source (headless\_gen/rng.js)\<close>

text \<open>
  \<^verbatim>\<open>seedLCG(seed)\<close> keeps one unsigned 32-bit number, \<^verbatim>\<open>state = seed >>> 0\<close>, and
  returns a closure. Each call of the closure assigns
  \<^verbatim>\<open>state = (1664525 * state + 1013904223) >>> 0\<close> and returns
  \<^verbatim>\<open>state / 0x100000000\<close>. The product stays below \<open>2^53\<close>, so the double arithmetic of
  the source is exact and the step is arithmetic modulo \<open>2^32\<close>; the quotient by \<open>2^32\<close>
  is a dyadic rational that a double holds exactly. The closure is modelled by its state
  and a call by a function that returns the draw and the advanced state.
\<close>

definition seedLCG :: "int \<Rightarrow> int" where
  "seedLCG seed = seed mod 2 ^ 32"

definition lcg_step :: "int \<Rightarrow> int" where
  "lcg_step state = (1664525 * state + 1013904223) mod 2 ^ 32"

definition lcg_call :: "int \<Rightarrow> rat \<times> int" where
  "lcg_call state = (let state' = lcg_step state in (of_int state' / 2 ^ 32, state'))"

section \<open>The A* solver (solvers/astar.js)\<close>

text \<open>
  Cells are pairs \<open>(x, y)\<close> of JavaScript numbers that hold integers; a grid is an array of
  rows, read as \<^verbatim>\<open>grid[y][x]\<close>, with \<open>0\<close> for a wall and \<open>1\<close> for a passage. A maze
  spec is the object \<^verbatim>\<open>{ grid, startX, startY, goalX, goalY }\<close>; the solver's argument
  \<^verbatim>\<open>ctx\<close> has these fields and \<^verbatim>\<open>rows\<close>, \<^verbatim>\<open>cols\<close> and \<^verbatim>\<open>heuristic\<close>.
\<close>

type_synonym cell = "int \<times> int"

record maze_spec =
  grid :: "nat list list"
  startX :: int
  startY :: int
  goalX :: int
  goalY :: int

record solve_ctx = maze_spec +
  rows :: nat
  cols :: nat
  heuristic :: "int \<Rightarrow> int \<Rightarrow> int \<Rightarrow> int \<Rightarrow> nat"

text \<open>
  \<^verbatim>\<open>grid[y][x]\<close>, which the solver evaluates only for \<open>0 \<le> x < cols\<close> and
  \<open>0 \<le> y < rows\<close>.
\<close>

definition grid_at :: "nat list list \<Rightarrow> int \<Rightarrow> int \<Rightarrow> nat" where
  "grid_at g x y = g ! nat y ! nat x"

text \<open>The Manhattan distance that the workers pass as \<^verbatim>\<open>heuristic\<close>.\<close>

definition manhattan :: "int \<Rightarrow> int \<Rightarrow> int \<Rightarrow> int \<Rightarrow> nat" where
  "manhattan x1 y1 x2 y2 = nat (\<bar>x1 - x2\<bar> + \<bar>y1 - y2\<bar>)"

definition DIRS :: "(int \<times> int) list" where
  "DIRS = [(0, -1), (1, 0), (0, 1), (-1, 0)]"

text \<open>
  A reasoning event is the array \<^verbatim>\<open>[tag, x, y, 'c' + g, 'c' + h]\<close>. The two cost strings
  are kept as the numbers they are built from; the serializer writes the prefix. Scores
  are numbers or \<^verbatim>\<open>Infinity\<close>, hence \<^typ>\<open>enat\<close>.
\<close>

datatype event = Close int int enat nat | Create int int enat nat

text \<open>
  The matrices \<^verbatim>\<open>gScore\<close>, \<^verbatim>\<open>fScore\<close>, \<^verbatim>\<open>cameFrom\<close> and \<^verbatim>\<open>closedSet\<close> are
  \<^verbatim>\<open>rows\<close> by \<^verbatim>\<open>cols\<close> arrays filled with one value and then updated by index at cells
  inside the grid; they are modelled as functions on cells.
\<close>

record astar_state =
  openSet :: "cell list"
  closedSet :: "cell \<Rightarrow> bool"
  gScore :: "cell \<Rightarrow> enat"
  fScore :: "cell \<Rightarrow> enat"
  cameFrom :: "cell \<Rightarrow> cell option"
  reasoning :: "event list"

text \<open>
  \<^verbatim>\<open>extractLowestFScore\<close>: a linear scan from index 1 that moves to a later entry only on
  a strictly smaller \<^verbatim>\<open>fScore\<close>, then \<^verbatim>\<open>splice(lowestIndex, 1)\<close>.
\<close>

fun scan_lowest :: "(cell \<Rightarrow> enat) \<Rightarrow> cell list \<Rightarrow> nat \<Rightarrow> nat \<Rightarrow> enat \<Rightarrow> nat" where
  "scan_lowest fS [] i lowestIndex lowestF = lowestIndex"
| "scan_lowest fS (c # cs) i lowestIndex lowestF =
     (if fS c < lowestF then scan_lowest fS cs (Suc i) i (fS c)
      else scan_lowest fS cs (Suc i) lowestIndex lowestF)"

definition extractLowestFScore :: "cell list \<Rightarrow> (cell \<Rightarrow> enat) \<Rightarrow> cell \<times> cell list" where
  "extractLowestFScore os fS =
     (let lowestIndex = scan_lowest fS (tl os) 1 0 (fS (hd os))
      in (os ! lowestIndex, take lowestIndex os @ drop (Suc lowestIndex) os))"

text \<open>
  \<^verbatim>\<open>reconstructPathInternal\<close>: walk the back-pointers from the goal until the start is
  reached or a back-pointer is missing, push the start, reverse.
\<close>

partial_function (option) walk_back ::
  "(cell \<Rightarrow> cell option) \<Rightarrow> cell \<Rightarrow> cell \<Rightarrow> cell list \<Rightarrow> cell list option" where
  "walk_back cf start c path =
     (if c \<noteq> start then
        (case cf c of
           None \<Rightarrow> Some (path @ [c])
         | Some prev \<Rightarrow> walk_back cf start prev (path @ [c]))
      else Some path)"

declare walk_back.simps [code]

definition reconstructPathInternal ::
  "(cell \<Rightarrow> cell option) \<Rightarrow> int \<Rightarrow> int \<Rightarrow> int \<Rightarrow> int \<Rightarrow> cell list option" where
  "reconstructPathInternal cf sx sy gx gy =
     map_option (\<lambda>path. rev (path @ [(sx, sy)])) (walk_back cf (sx, sy) (gx, gy) [])"

text \<open>The body of the loop over \<^verbatim>\<open>DIRS\<close> in \<^verbatim>\<open>solveSync\<close>, for one direction.\<close>

definition relax :: "solve_ctx \<Rightarrow> cell \<Rightarrow> astar_state \<Rightarrow> int \<times> int \<Rightarrow> astar_state" where
  "relax ctx cur s d =
     (let nx = fst cur + fst d; ny = snd cur + snd d in
      if nx < 0 \<or> nx \<ge> int (cols ctx) \<or> ny < 0 \<or> ny \<ge> int (rows ctx) then s
      else if grid_at (grid ctx) nx ny = 0 \<or> closedSet s (nx, ny) then s
      else
        let tentativeG = gScore s cur + 1 in
        if tentativeG < gScore s (nx, ny) then
          s\<lparr> cameFrom := (cameFrom s)((nx, ny) := Some cur),
             gScore := (gScore s)((nx, ny) := tentativeG),
             fScore := (fScore s)((nx, ny) :=
               tentativeG + enat (heuristic ctx nx ny (goalX ctx) (goalY ctx))),
             reasoning := reasoning s @
               [Create nx ny tentativeG (heuristic ctx nx ny (goalX ctx) (goalY ctx))],
             openSet := (if (nx, ny) \<in> set (openSet s) then openSet s
                         else openSet s @ [(nx, ny)]) \<rparr>
        else s)"

text \<open>
  One pass of the \<^verbatim>\<open>while (openSet.length > 0)\<close> loop: the entry with the lowest
  \<^verbatim>\<open>fScore\<close> is removed and its close event recorded; unless it is the goal, it is
  marked closed and its four neighbours are visited.
\<close>

definition pop_lowest :: "solve_ctx \<Rightarrow> astar_state \<Rightarrow> cell \<times> astar_state" where
  "pop_lowest ctx s =
     (let (cur, rest) = extractLowestFScore (openSet s) (fScore s)
      in (cur, s\<lparr> openSet := rest,
                  reasoning := reasoning s @
                    [Close (fst cur) (snd cur) (gScore s cur)
                       (heuristic ctx (fst cur) (snd cur) (goalX ctx) (goalY ctx))] \<rparr>))"

definition expand :: "solve_ctx \<Rightarrow> cell \<Rightarrow> astar_state \<Rightarrow> astar_state" where
  "expand ctx cur s =
     foldl (relax ctx cur) (s\<lparr> closedSet := (closedSet s)(cur := True) \<rparr>) DIRS"

partial_function (option) astar_loop :: "solve_ctx \<Rightarrow> astar_state \<Rightarrow> astar_state option" where
  "astar_loop ctx s =
     (if openSet s = [] then Some s
      else if fst (pop_lowest ctx s) = (goalX ctx, goalY ctx) then Some (snd (pop_lowest ctx s))
      else astar_loop ctx (expand ctx (fst (pop_lowest ctx s)) (snd (pop_lowest ctx s))))"

declare astar_loop.simps [code]

definition astar_init :: "solve_ctx \<Rightarrow> astar_state" where
  "astar_init ctx =
     \<lparr> openSet = [(startX ctx, startY ctx)],
       closedSet = (\<lambda>_. False),
       gScore = (\<lambda>_. \<infinity>)((startX ctx, startY ctx) := 0),
       fScore = (\<lambda>_. \<infinity>)((startX ctx, startY ctx) :=
         enat (heuristic ctx (startX ctx) (startY ctx) (goalX ctx) (goalY ctx))),
       cameFrom = (\<lambda>_. None),
       reasoning = [] \<rparr>"

text \<open>
  \<^verbatim>\<open>solveSync\<close> returns \<^verbatim>\<open>{ reasoning, plan }\<close>; \<open>None\<close> stands for a call that does
  not return.
\<close>

definition solveSync :: "solve_ctx \<Rightarrow> (event list \<times> cell list) option" where
  "solveSync ctx =
     (case astar_loop ctx (astar_init ctx) of
        None \<Rightarrow> None
      | Some s \<Rightarrow>
          map_option (\<lambda>plan. (reasoning s, plan))
            (reconstructPathInternal (cameFrom s)
               (startX ctx) (startY ctx) (goalX ctx) (goalY ctx)))"

text \<open>The argument that \<^verbatim>\<open>solver-worker.js\<close> and \<^verbatim>\<open>index.js\<close> build for a maze spec.\<close>

definition solver_ctx :: "nat \<Rightarrow> nat \<Rightarrow> maze_spec \<Rightarrow> solve_ctx" where
  "solver_ctx r c spec =
     \<lparr> grid = grid spec, startX = startX spec, startY = startY spec,
       goalX = goalX spec, goalY = goalY spec,
       rows = r, cols = c, heuristic = manhattan \<rparr>"

section \<open>The example serializer (headless\_gen/serializer.js)\<close>

datatype js_error = TypeError | Error string

text \<open>
  The array \<^verbatim>\<open>tokens\<close> holds strings and numbers; \<^verbatim>\<open>tokens.join(' ')\<close> converts each
  element to a string. The numbers are integers, which JavaScript prints in decimal with
  a leading minus sign when negative as long as they are below \<open>10^21\<close> in magnitude;
  from there on it prints an exponent, which \<open>Number_toString\<close> does not model. The
  properties of the serializer are therefore stated for numbers below \<open>2^53\<close> in
  magnitude, the integers that a JavaScript number holds exactly.
\<close>

datatype token = Str string | Num int

definition digit_char :: "nat \<Rightarrow> char" where
  "digit_char d = char_of (48 + d)"

fun nat_to_string :: "nat \<Rightarrow> string" where
  "nat_to_string n =
     (if n < 10 then [digit_char n] else nat_to_string (n div 10) @ [digit_char (n mod 10)])"

declare nat_to_string.simps [simp del]

definition Number_toString :: "int \<Rightarrow> string" where
  "Number_toString i = (if i < 0 then CHR ''-'' # nat_to_string (nat (- i)) else nat_to_string (nat i))"

definition token_string :: "token \<Rightarrow> string" where
  "token_string t = (case t of Str w \<Rightarrow> w | Num i \<Rightarrow> Number_toString i)"

fun join :: "string \<Rightarrow> string list \<Rightarrow> string" where
  "join sep [] = []"
| "join sep [w] = w"
| "join sep (w # ws) = w @ sep @ join sep ws"

text \<open>The cost strings \<^verbatim>\<open>'c' + g\<close> and \<^verbatim>\<open>'c' + h\<close> of an event, and its five tokens.\<close>

definition cost_string :: "enat \<Rightarrow> string" where
  "cost_string g = CHR ''c'' # (case g of enat n \<Rightarrow> nat_to_string n | \<infinity> \<Rightarrow> ''Infinity'')"

fun event_items :: "event \<Rightarrow> token list" where
  "event_items (Close x y g h) =
     [Str ''close'', Num x, Num y, Str (cost_string g), Str (cost_string (enat h))]"
| "event_items (Create x y g h) =
     [Str ''create'', Num x, Num y, Str (cost_string g), Str (cost_string (enat h))]"

text \<open>
  \<^verbatim>\<open>JSON.stringify\<close> of an object with the single string property \<^verbatim>\<open>text\<close>. Characters
  are the 8-bit ones of \<^typ>\<open>char\<close>: the quotation mark, the backslash and the control
  characters below \<open>0x20\<close> are escaped, everything else is copied.
\<close>

definition hex_digit :: "nat \<Rightarrow> char" where
  "hex_digit d = (if d < 10 then char_of (48 + d) else char_of (87 + d))"

definition QuoteJSONChar :: "char \<Rightarrow> string" where
  "QuoteJSONChar c =
     (let n = (of_char c :: nat) in
      if n = 8 then [CHR 0x5C, CHR ''b'']
      else if n = 9 then [CHR 0x5C, CHR ''t'']
      else if n = 10 then [CHR 0x5C, CHR ''n'']
      else if n = 12 then [CHR 0x5C, CHR ''f'']
      else if n = 13 then [CHR 0x5C, CHR ''r'']
      else if n = 34 then [CHR 0x5C, CHR 0x22]
      else if n = 92 then [CHR 0x5C, CHR 0x5C]
      else if n < 32 then [CHR 0x5C, CHR ''u'', CHR ''0'', CHR ''0'', hex_digit (n div 16), hex_digit (n mod 16)]
      else [c])"

definition QuoteJSONString :: "string \<Rightarrow> string" where
  "QuoteJSONString w = CHR 0x22 # concat (map QuoteJSONChar w) @ [CHR 0x22]"

definition JSON_stringify_text :: "string \<Rightarrow> string" where
  "JSON_stringify_text w =
     [CHR ''{'', CHR 0x22] @ ''text'' @ [CHR 0x22, CHR '':''] @ QuoteJSONString w @ [CHR ''}'']"

text \<open>
  \<^verbatim>\<open>grid[y][x]\<close> for a row \<^verbatim>\<open>grid[y]\<close> that exists: a column beyond the row's length
  reads \<^verbatim>\<open>undefined\<close>.
\<close>

definition row_read :: "nat list \<Rightarrow> nat \<Rightarrow> nat option" where
  "row_read row x = (if x < length row then Some (row ! x) else None)"

text \<open>
  \<^verbatim>\<open>serializeExample\<close>, once its argument has been destructured into \<^verbatim>\<open>spec\<close> and
  \<^verbatim>\<open>solution\<close>. \<^verbatim>\<open>grid[0].length\<close> raises a TypeError on an empty grid.
\<close>

definition push_walls :: "nat list list \<Rightarrow> nat \<Rightarrow> nat \<Rightarrow> token list \<Rightarrow> token list" where
  "push_walls g rs cs tokens =
     foldl (\<lambda>tokens y.
        foldl (\<lambda>tokens x.
           if row_read (g ! y) x = Some 0 then tokens @ [Str ''wall'', Num (int x), Num (int y)]
           else tokens) tokens [0..<cs]) tokens [0..<rs]"

definition serializeExample :: "maze_spec \<Rightarrow> event list \<times> cell list \<Rightarrow> js_error + string" where
  "serializeExample spec solution =
     (case grid spec of
        [] \<Rightarrow> Inl TypeError
      | row0 # _ \<Rightarrow>
          let rs = length (grid spec);
              cs = length row0;
              tokens = [Str ''query'', Str ''start'', Num (startX spec), Num (startY spec),
                        Str ''goal'', Num (goalX spec), Num (goalY spec)];
              tokens = push_walls (grid spec) rs cs tokens;
              tokens = tokens @ [Str ''reasoning''];
              tokens = foldl (\<lambda>tokens ev. tokens @ event_items ev) tokens (fst solution);
              tokens = tokens @ [Str ''solution''];
              tokens = foldl (\<lambda>tokens (x, y). tokens @ [Str ''plan'', Num x, Num y]) tokens
                         (snd solution);
              tokens = tokens @ [Str ''end'']
          in Inr (JSON_stringify_text (join '' '' (map token_string tokens)) @ [CHR 0x0A]))"

text \<open>
  The call itself. The function has one parameter, the pattern
  \<^verbatim>\<open>{ spec, solution, generatorId, solverId }\<close>, so only the first argument is looked at:
  the pattern raises a TypeError on \<^verbatim>\<open>undefined\<close>, and a property that the first argument
  lacks is \<^verbatim>\<open>undefined\<close>. The body then destructures \<^verbatim>\<open>spec\<close> and \<^verbatim>\<open>solution\<close>, which
  raises a TypeError when one of them is \<^verbatim>\<open>undefined\<close>; an array in the place of
  \<^verbatim>\<open>spec\<close> has no \<^verbatim>\<open>grid\<close>, and \<^verbatim>\<open>grid.length\<close> raises as well. The values that the
  callers pass are a maze spec, the reasoning array, the plan array, a solution object and
  the object \<^verbatim>\<open>{ spec, solution, generatorId, solverId }\<close>.
\<close>

datatype js_value =
    Undefined
  | SpecObj maze_spec
  | ReasoningArr "event list"
  | PlanArr "cell list"
  | SolutionObj "event list" "cell list"
  | ExampleObj js_value js_value

fun get_property :: "js_value \<Rightarrow> string \<Rightarrow> js_value" where
  "get_property (ExampleObj sp sol) name =
     (if name = ''spec'' then sp else if name = ''solution'' then sol else Undefined)"
| "get_property v name = Undefined"

definition serializeExample_call :: "js_value list \<Rightarrow> js_error + string" where
  "serializeExample_call args =
     (case (case args of [] \<Rightarrow> Undefined | a # _ \<Rightarrow> a) of
        Undefined \<Rightarrow> Inl TypeError
      | a \<Rightarrow>
          (case (get_property a ''spec'', get_property a ''solution'') of
             (SpecObj spec, SolutionObj r p) \<Rightarrow> serializeExample spec (r, p)
           | _ \<Rightarrow> Inl TypeError))"

section \<open>Drawing integers from the generator's \<^verbatim>\<open>prng\<close>\<close>

text \<open>
  A generator receives \<^verbatim>\<open>prng\<close>, a closure that returns a number in \<open>[0, 1)\<close> and
  advances its hidden state. The closure of \<^verbatim>\<open>seedLCG\<close> returns \<open>state / 2^32\<close>, so a
  \<^verbatim>\<open>prng\<close> is modelled by a function from its state to the numerator \<open>d\<close> of the draw
  \<open>d / 2^32\<close> and the next state; \<^const>\<open>lcg_call\<close> becomes \<open>lcg_draw\<close>. With the
  small integers \<open>n\<close> used below, \<open>d * n\<close> stays under \<open>2^53\<close> and
  \<^verbatim>\<open>Math.floor(prng() * n)\<close> is exactly \<open>(d * n) div 2^32\<close>; a comparison
  \<^verbatim>\<open>prng() < q\<close> is \<open>d < q * 2^32\<close>. \<open>Drawn v st\<close> is a value \<open>v\<close> obtained with
  draws that left the \<^verbatim>\<open>prng\<close> in state \<open>st\<close>.
\<close>

datatype ('a, 's) drawn = Drawn 'a 's

type_synonym 's prng = "'s \<Rightarrow> (int, 's) drawn"

definition lcg_draw :: "int prng" where
  "lcg_draw state = Drawn (lcg_step state) (lcg_step state)"

text \<open>\<^verbatim>\<open>Math.floor(prng() * n)\<close>\<close>

definition rand_int :: "'s prng \<Rightarrow> nat \<Rightarrow> 's \<Rightarrow> (nat, 's) drawn" where
  "rand_int prng n st = (case prng st of Drawn d st' \<Rightarrow> Drawn (nat ((d * int n) div 2 ^ 32)) st')"

text \<open>\<^verbatim>\<open>prng() < q\<close>\<close>

definition draw_below :: "'s prng \<Rightarrow> rat \<Rightarrow> 's \<Rightarrow> (bool, 's) drawn" where
  "draw_below prng q st = (case prng st of Drawn d st' \<Rightarrow> Drawn (of_int d < q * 2 ^ 32) st')"

text \<open>
  Reading \<^verbatim>\<open>a[y][x]\<close> from an array of arrays: a TypeError when the row \<^verbatim>\<open>a[y]\<close> does
  not exist, \<^verbatim>\<open>undefined\<close> when the row has no such column.
\<close>

definition read2 :: "'a list list \<Rightarrow> nat \<Rightarrow> nat \<Rightarrow> js_error + 'a option" where
  "read2 a y x =
     (if y < length a then Inr (if x < length (a ! y) then Some (a ! y ! x) else None)
      else Inl TypeError)"

text \<open>Writing \<^verbatim>\<open>grid[y][x] = v\<close> at a cell of the grid.\<close>

definition grid_set :: "nat list list \<Rightarrow> nat \<Rightarrow> nat \<Rightarrow> nat \<Rightarrow> nat list list" where
  "grid_set g x y v = g[y := (g ! y)[x := v]]"

text \<open>The floor cells of a grid in row-major order, as pairs \<^verbatim>\<open>[x, y]\<close>.\<close>

definition floor_cells :: "nat \<Rightarrow> nat \<Rightarrow> nat list list \<Rightarrow> cell list" where
  "floor_cells rs cs g =
     concat (map (\<lambda>y. concat (map (\<lambda>x. if g ! y ! x = 1 then [(int x, int y)] else [])
                                  [0..<cs])) [0..<rs])"

text \<open>
  The destructuring \<^verbatim>\<open>[startX, startY] = floors[a]\<close> and \<^verbatim>\<open>[goalX, goalY] = floors[b]\<close>,
  which raises a TypeError on an index outside the array, and the returned spec.
\<close>

definition spec_at ::
  "nat list list \<Rightarrow> cell list \<Rightarrow> nat \<Rightarrow> nat \<Rightarrow> 's \<Rightarrow> js_error + (maze_spec, 's) drawn" where
  "spec_at g floors a b st =
     (if a < length floors \<and> b < length floors then
        Inr (Drawn \<lparr> grid = g, startX = fst (floors ! a), startY = snd (floors ! a),
                      goalX = fst (floors ! b), goalY = snd (floors ! b) \<rparr> st)
      else Inl TypeError)"

section \<open>The cellular automata generator (generators/cellular\_automata.js)\<close>

text \<open>The random fill: one draw per cell in row-major order, a wall when the draw is below
  \<^verbatim>\<open>fillProbability\<close>.\<close>

fun fill_row :: "'s prng \<Rightarrow> rat \<Rightarrow> nat \<Rightarrow> 's \<Rightarrow> (nat list, 's) drawn" where
  "fill_row prng p 0 st = Drawn [] st"
| "fill_row prng p (Suc n) st =
     (case draw_below prng p st of Drawn wall st1 \<Rightarrow>
        (case fill_row prng p n st1 of Drawn row st2 \<Rightarrow>
           Drawn ((if wall then 0 else 1) # row) st2))"

fun fill_grid :: "'s prng \<Rightarrow> rat \<Rightarrow> nat \<Rightarrow> nat \<Rightarrow> 's \<Rightarrow> (nat list list, 's) drawn" where
  "fill_grid prng p 0 cs st = Drawn [] st"
| "fill_grid prng p (Suc n) cs st =
     (case fill_row prng p cs st of Drawn row st1 \<Rightarrow>
        (case fill_grid prng p n cs st1 of Drawn g st2 \<Rightarrow> Drawn (row # g) st2))"

text \<open>\<^verbatim>\<open>countAlive\<close>: the eight neighbours, a cell outside the grid or a wall counts.\<close>

definition countAlive :: "nat \<Rightarrow> nat \<Rightarrow> nat list list \<Rightarrow> int \<Rightarrow> int \<Rightarrow> int" where
  "countAlive rs cs g y x =
     int (length (filter
       (\<lambda>(dy, dx). \<not> (dx = 0 \<and> dy = 0) \<and>
          (let ny = y + dy; nx = x + dx in
           nx < 0 \<or> nx \<ge> int cs \<or> ny < 0 \<or> ny \<ge> int rs \<or> grid_at g nx ny = 0))
       (concat (map (\<lambda>dy. map (\<lambda>dx. (dy, dx)) [-1, 0, 1]) [-1, 0, 1]))))"

definition ca_step :: "nat \<Rightarrow> nat \<Rightarrow> int \<Rightarrow> int \<Rightarrow> nat list list \<Rightarrow> nat list list" where
  "ca_step rs cs survivalThreshold birthThreshold g =
     map (\<lambda>y. map (\<lambda>x.
            let alive = countAlive rs cs g (int y) (int x) in
            if g ! y ! x = 0 then (if alive < survivalThreshold then 1 else 0)
            else (if alive > birthThreshold then 0 else 1)) [0..<cs]) [0..<rs]"

text \<open>The loop \<^verbatim>\<open>for (it = 0; it < iterations; it++)\<close>, by the number of passes left.\<close>

fun ca_iterate :: "nat \<Rightarrow> nat \<Rightarrow> int \<Rightarrow> int \<Rightarrow> nat \<Rightarrow> nat list list \<Rightarrow> nat list list" where
  "ca_iterate rs cs survivalThreshold birthThreshold 0 g = g"
| "ca_iterate rs cs survivalThreshold birthThreshold (Suc n) g =
     ca_iterate rs cs survivalThreshold birthThreshold n
       (ca_step rs cs survivalThreshold birthThreshold g)"

text \<open>\<^verbatim>\<open>do { b = pickIdx(); } while (b === a);\<close>\<close>

partial_function (option) draw_other ::
  "'s prng \<Rightarrow> nat \<Rightarrow> nat \<Rightarrow> 's \<Rightarrow> (nat, 's) drawn option" where
  "draw_other prng n a st =
     (case rand_int prng n st of Drawn b st' \<Rightarrow>
        if b = a then draw_other prng n a st' else Some (Drawn b st'))"

declare draw_other.simps [code]

text \<open>
  The grid after the fill and the iterations, and then \<^verbatim>\<open>generateSync\<close>; \<open>None\<close>
  stands for a call that does not return. The default parameters are
  \<^verbatim>\<open>fillProbability = 0.45\<close>, \<^verbatim>\<open>survivalThreshold = 4\<close>, \<^verbatim>\<open>birthThreshold = 5\<close> and
  \<^verbatim>\<open>iterations = 3\<close>.
\<close>

definition ca_grid ::
  "nat \<Rightarrow> nat \<Rightarrow> 's prng \<Rightarrow> rat \<Rightarrow> int \<Rightarrow> int \<Rightarrow> nat \<Rightarrow> 's \<Rightarrow> (nat list list, 's) drawn" where
  "ca_grid rs cs prng fillProbability survivalThreshold birthThreshold iterations st =
     (case fill_grid prng fillProbability rs cs st of Drawn g0 st1 \<Rightarrow>
        Drawn (ca_iterate rs cs survivalThreshold birthThreshold iterations g0) st1)"

definition pick_distinct ::
  "'s prng \<Rightarrow> nat list list \<Rightarrow> cell list \<Rightarrow> 's \<Rightarrow> (js_error + (maze_spec, 's) drawn) option" where
  "pick_distinct prng g floors st =
     (case rand_int prng (length floors) st of Drawn a st1 \<Rightarrow>
        (case draw_other prng (length floors) a st1 of
           None \<Rightarrow> None
         | Some (Drawn b st2) \<Rightarrow> Some (spec_at g floors a b st2)))"

definition cellular_automata_generateSync ::
  "nat \<Rightarrow> nat \<Rightarrow> 's prng \<Rightarrow> rat \<Rightarrow> int \<Rightarrow> int \<Rightarrow> nat \<Rightarrow> 's
     \<Rightarrow> (js_error + (maze_spec, 's) drawn) option" where
  "cellular_automata_generateSync rs cs prng fillProbability survivalThreshold birthThreshold
       iterations st =
     (case ca_grid rs cs prng fillProbability survivalThreshold birthThreshold iterations st of
        Drawn g st1 \<Rightarrow> pick_distinct prng g (floor_cells rs cs g) st1)"

definition cellular_automata_default ::
  "nat \<Rightarrow> nat \<Rightarrow> 's prng \<Rightarrow> 's \<Rightarrow> (js_error + (maze_spec, 's) drawn) option" where
  "cellular_automata_default rs cs prng st =
     cellular_automata_generateSync rs cs prng (45 / 100) 4 5 3 st"

section \<open>The sequential public API (headless\_gen/index.js)\<close>

text \<open>
  \<^verbatim>\<open>generateDataset\<close> is an async generator: it yields lines and then returns, throws, or
  never gets that far. Its arguments \<^verbatim>\<open>generateSync\<close> and \<^verbatim>\<open>solveSync\<close> stand for the
  entries that the two registry look-ups return once the four checks at the top have
  passed. The generator is called with \<^verbatim>\<open>{ rows, cols, prng }\<close> only, and
  \<^verbatim>\<open>serializeExample\<close> with the three positional arguments \<^verbatim>\<open>spec, reasoning, plan\<close>.
\<close>

datatype completion = Returned | Threw js_error | Never

fun generateDataset_loop ::
  "('s \<Rightarrow> (js_error + (maze_spec, 's) drawn) option)
     \<Rightarrow> (maze_spec \<Rightarrow> (event list \<times> cell list) option)
     \<Rightarrow> nat \<Rightarrow> 's \<Rightarrow> string list \<times> completion" where
  "generateDataset_loop gen solve 0 st = ([], Returned)"
| "generateDataset_loop gen solve (Suc n) st =
     (case gen st of
        None \<Rightarrow> ([], Never)
      | Some (Inl e) \<Rightarrow> ([], Threw e)
      | Some (Inr (Drawn spec st')) \<Rightarrow>
          (case solve spec of
             None \<Rightarrow> ([], Never)
           | Some (trace, plan) \<Rightarrow>
               (case serializeExample_call [SpecObj spec, ReasoningArr trace, PlanArr plan] of
                  Inl e \<Rightarrow> ([], Threw e)
                | Inr line \<Rightarrow>
                    (line # fst (generateDataset_loop gen solve n st'),
                     snd (generateDataset_loop gen solve n st')))))"

definition prngSeed :: "string \<Rightarrow> int \<Rightarrow> int" where
  "prngSeed mode seed = (seed * 2 + (if mode = ''test'' then 1 else 0)) mod 2 ^ 32"

definition generateDataset ::
  "(nat \<Rightarrow> nat \<Rightarrow> int prng \<Rightarrow> int \<Rightarrow> (js_error + (maze_spec, int) drawn) option)
     \<Rightarrow> (solve_ctx \<Rightarrow> (event list \<times> cell list) option)
     \<Rightarrow> nat \<Rightarrow> nat \<Rightarrow> string \<Rightarrow> int \<Rightarrow> nat \<Rightarrow> string list \<times> completion" where
  "generateDataset generateSync solveSync' rs cs mode seed count =
     generateDataset_loop (generateSync rs cs lcg_draw) (\<lambda>spec. solveSync' (solver_ctx rs cs spec))
       count (seedLCG (prngSeed mode seed))"

section \<open>Kruskal's generator (generators/kruskal.js)\<close>

text \<open>The values \<open>offset, offset + 2, \<dots>\<close> below a bound, and the rooms in row-major order.\<close>

definition every_other :: "nat \<Rightarrow> nat \<Rightarrow> nat list" where
  "every_other offset n = filter (\<lambda>v. even (v - offset)) [offset..<n]"

definition room_list :: "nat \<Rightarrow> nat \<Rightarrow> nat \<Rightarrow> (nat \<times> nat) list" where
  "room_list offset rs cs =
     concat (map (\<lambda>y. map (\<lambda>x. (x, y)) (every_other offset cs)) (every_other offset rs))"

text \<open>\<^verbatim>\<open>roomId\<close>: the index at which a room was pushed.\<close>

fun roomId :: "(nat \<times> nat) list \<Rightarrow> nat \<times> nat \<Rightarrow> nat option" where
  "roomId [] k = None"
| "roomId (r # rms) k = (if r = k then Some 0 else map_option Suc (roomId rms k))"

definition room_edges ::
  "nat \<Rightarrow> nat \<Rightarrow> (nat \<times> nat) list \<Rightarrow> (nat \<times> nat \<times> nat \<times> nat) list" where
  "room_edges rs cs rms =
     concat (map (\<lambda>i.
        let x = fst (rms ! i); y = snd (rms ! i) in
        (if x + 2 < cs then
           (case roomId rms (x + 2, y) of Some j \<Rightarrow> [(i, j, x + 1, y)] | None \<Rightarrow> [])
         else []) @
        (if y + 2 < rs then
           (case roomId rms (x, y + 2) of Some j \<Rightarrow> [(i, j, x, y + 1)] | None \<Rightarrow> [])
         else [])) [0..<length rms])"

text \<open>
  Union-find: \<^verbatim>\<open>find\<close> compresses the path it walks; \<^verbatim>\<open>union(a, b)\<close> is
  \<^verbatim>\<open>parent[find(a)] = find(b)\<close>, which calls \<^verbatim>\<open>find(a)\<close> first.
\<close>

partial_function (option) uf_find :: "nat list \<Rightarrow> nat \<Rightarrow> (nat \<times> nat list) option" where
  "uf_find parent i =
     (if parent ! i = i then Some (i, parent)
      else Option.bind (uf_find parent (parent ! i)) (\<lambda>(r, parent'). Some (r, parent'[i := r])))"

declare uf_find.simps [code]

definition uf_union :: "nat list \<Rightarrow> nat \<Rightarrow> nat \<Rightarrow> nat list option" where
  "uf_union parent a b =
     (case uf_find parent a of
        None \<Rightarrow> None
      | Some (ra, p1) \<Rightarrow>
          (case uf_find p1 b of
             None \<Rightarrow> None
           | Some (rb, p2) \<Rightarrow> Some (p2[ra := rb])))"

text \<open>The Fisher-Yates shuffle \<^verbatim>\<open>for (i = length - 1; i > 0; i--)\<close> with the swap of
  \<^verbatim>\<open>arr[i]\<close> and \<^verbatim>\<open>arr[j]\<close>.\<close>

fun shuffle_loop :: "'s prng \<Rightarrow> nat \<Rightarrow> 'a list \<Rightarrow> 's \<Rightarrow> ('a list, 's) drawn" where
  "shuffle_loop prng 0 arr st = Drawn arr st"
| "shuffle_loop prng (Suc k) arr st =
     (case rand_int prng (Suc k + 1) st of Drawn j st' \<Rightarrow>
        shuffle_loop prng k (arr[Suc k := arr ! j, j := arr ! Suc k]) st')"

definition shuffle :: "'s prng \<Rightarrow> 'a list \<Rightarrow> 's \<Rightarrow> ('a list, 's) drawn" where
  "shuffle prng arr st = shuffle_loop prng (length arr - 1) arr st"

text \<open>The carving loop over the shuffled edges.\<close>

fun carve_edges ::
  "(nat \<times> nat \<times> nat \<times> nat) list \<Rightarrow> nat list \<Rightarrow> nat list list \<Rightarrow> nat list list option" where
  "carve_edges [] parent g = Some g"
| "carve_edges ((u, v, wx, wy) # es) parent g =
     (case uf_find parent u of
        None \<Rightarrow> None
      | Some (ru, p1) \<Rightarrow>
          (case uf_find p1 v of
             None \<Rightarrow> None
           | Some (rv, p2) \<Rightarrow>
               if ru \<noteq> rv then
                 (case uf_union p2 u v of
                    None \<Rightarrow> None
                  | Some p3 \<Rightarrow> carve_edges es p3 (grid_set g wx wy 1))
               else carve_edges es p2 g))"

text \<open>\<^verbatim>\<open>pick\<close>: draw \<^verbatim>\<open>x\<close> and \<^verbatim>\<open>y\<close> until the cell is not a wall.\<close>

partial_function (option) pick_floor ::
  "'s prng \<Rightarrow> nat \<Rightarrow> nat \<Rightarrow> nat list list \<Rightarrow> 's \<Rightarrow> (js_error + (cell, 's) drawn) option" where
  "pick_floor prng rs cs g st =
     (case rand_int prng cs st of Drawn x st1 \<Rightarrow>
        (case rand_int prng rs st1 of Drawn y st2 \<Rightarrow>
           (case read2 g y x of
              Inl e \<Rightarrow> Some (Inl e)
            | Inr v \<Rightarrow>
                if v = Some 0 then pick_floor prng rs cs g st2
                else Some (Inr (Drawn (int x, int y) st2)))))"

declare pick_floor.simps [code]

text \<open>
  The grid after carving, and then \<^verbatim>\<open>generateSync\<close>: start and goal are picked, and the
  goal is picked once more when it equals the start.
\<close>

definition kruskal_carve ::
  "nat \<Rightarrow> nat \<Rightarrow> 's prng \<Rightarrow> 's \<Rightarrow> (nat list list, 's) drawn option" where
  "kruskal_carve rs cs prng st =
     (case draw_below prng (1 / 2) st of Drawn low st1 \<Rightarrow>
        (case shuffle prng (room_edges rs cs (room_list (if low then 0 else 1) rs cs)) st1 of
           Drawn edges st2 \<Rightarrow>
             map_option (\<lambda>g. Drawn g st2)
               (carve_edges edges [0..<length (room_list (if low then 0 else 1) rs cs)]
                  (foldl (\<lambda>g (x, y). grid_set g x y 1) (replicate rs (replicate cs 0))
                     (room_list (if low then 0 else 1) rs cs)))))"

definition pick_start_goal ::
  "(nat list list \<Rightarrow> 's \<Rightarrow> (js_error + (cell, 's) drawn) option) \<Rightarrow> nat list list \<Rightarrow> 's
     \<Rightarrow> (js_error + (maze_spec, 's) drawn) option" where
  "pick_start_goal pick g st =
     (case pick g st of
        None \<Rightarrow> None
      | Some (Inl e) \<Rightarrow> Some (Inl e)
      | Some (Inr (Drawn start st1)) \<Rightarrow>
          (case pick g st1 of
             None \<Rightarrow> None
           | Some (Inl e) \<Rightarrow> Some (Inl e)
           | Some (Inr (Drawn goal st2)) \<Rightarrow>
               if start = goal then
                 (case pick g st2 of
                    None \<Rightarrow> None
                  | Some (Inl e) \<Rightarrow> Some (Inl e)
                  | Some (Inr (Drawn goal' st3)) \<Rightarrow>
                      Some (Inr (Drawn \<lparr> grid = g, startX = fst start, startY = snd start,
                                           goalX = fst goal', goalY = snd goal' \<rparr> st3)))
               else Some (Inr (Drawn \<lparr> grid = g, startX = fst start, startY = snd start,
                                         goalX = fst goal, goalY = snd goal \<rparr> st2))))"

definition kruskal_generateSync ::
  "nat \<Rightarrow> nat \<Rightarrow> 's prng \<Rightarrow> 's \<Rightarrow> (js_error + (maze_spec, 's) drawn) option" where
  "kruskal_generateSync rs cs prng st =
     (case kruskal_carve rs cs prng st of
        None \<Rightarrow> None
      | Some (Drawn g st1) \<Rightarrow> pick_start_goal (pick_floor prng rs cs) g st1)"

section \<open>Wilson's generator (generators/wilson.js)\<close>

text \<open>
  The rooms are those of Kruskal's generator. \<^verbatim>\<open>inMaze\<close> is a set of keys whose size is
  read; it is kept as the list of its cells in insertion order.
\<close>

definition wilson_dirs :: "(int \<times> int) list" where
  "wilson_dirs = [(2, 0), (-2, 0), (0, 2), (0, -2)]"

definition wilson_rooms :: "nat \<Rightarrow> nat \<Rightarrow> nat \<Rightarrow> cell list" where
  "wilson_rooms offset rs cs = map (\<lambda>(x, y). (int x, int y)) (room_list offset rs cs)"

text \<open>\<^verbatim>\<open>do { root = rooms[...] } while (inMaze.has(root))\<close>\<close>

partial_function (option) pick_root ::
  "'s prng \<Rightarrow> cell list \<Rightarrow> cell list \<Rightarrow> 's \<Rightarrow> (cell, 's) drawn option" where
  "pick_root prng rooms inMaze st =
     (case rand_int prng (length rooms) st of Drawn k st' \<Rightarrow>
        if rooms ! k \<in> set inMaze then pick_root prng rooms inMaze st'
        else Some (Drawn (rooms ! k) st'))"

declare pick_root.simps [code]

text \<open>
  The loop-erased walk. A step outside the grid consumes its draw and is skipped; a step
  into the maze ends the walk; a step onto the walk itself cuts the path back to the
  first visit and rebuilds \<^verbatim>\<open>indexMap\<close>.
\<close>

definition rebuild_indexMap :: "cell list \<Rightarrow> (cell \<Rightarrow> nat option)" where
  "rebuild_indexMap path = foldl (\<lambda>m j. m(path ! j \<mapsto> j)) (\<lambda>_. None) [0..<length path]"

definition step_from :: "cell \<Rightarrow> int \<times> int \<Rightarrow> cell" where
  "step_from c d = (fst c + fst d, snd c + snd d)"

partial_function (option) erased_walk ::
  "'s prng \<Rightarrow> nat \<Rightarrow> nat \<Rightarrow> cell list \<Rightarrow> cell list \<Rightarrow> (cell \<Rightarrow> nat option) \<Rightarrow> 's
     \<Rightarrow> (cell list, 's) drawn option" where
  "erased_walk prng rs cs inMaze path indexMap st =
     (case rand_int prng (length wilson_dirs) st of Drawn k st' \<Rightarrow>
        if fst (step_from (last path) (wilson_dirs ! k)) < 0
             \<or> fst (step_from (last path) (wilson_dirs ! k)) \<ge> int cs
             \<or> snd (step_from (last path) (wilson_dirs ! k)) < 0
             \<or> snd (step_from (last path) (wilson_dirs ! k)) \<ge> int rs
          then erased_walk prng rs cs inMaze path indexMap st'
        else if step_from (last path) (wilson_dirs ! k) \<in> set inMaze
          then Some (Drawn (path @ [step_from (last path) (wilson_dirs ! k)]) st')
        else (case indexMap (step_from (last path) (wilson_dirs ! k)) of
                Some idx \<Rightarrow>
                  erased_walk prng rs cs inMaze (take (idx + 1) path)
                    (rebuild_indexMap (take (idx + 1) path)) st'
              | None \<Rightarrow>
                  erased_walk prng rs cs inMaze (path @ [step_from (last path) (wilson_dirs ! k)])
                    (indexMap(step_from (last path) (wilson_dirs ! k) \<mapsto> length path)) st'))"

declare erased_walk.simps [code]

text \<open>Carving a finished walk: its cells, and the wall between two consecutive cells.\<close>

definition carve_cell ::
  "cell list \<Rightarrow> nat list list \<times> cell list \<Rightarrow> nat \<Rightarrow> nat list list \<times> cell list" where
  "carve_cell path gm i =
     (let g1 = (if path ! i \<in> set (snd gm) then fst gm
                else grid_set (fst gm) (nat (fst (path ! i))) (nat (snd (path ! i))) 1);
          inMaze1 = (if path ! i \<in> set (snd gm) then snd gm else snd gm @ [path ! i])
      in if i > 0 then
           (grid_set g1 (nat ((fst (path ! (i - 1)) + fst (path ! i)) div 2))
                        (nat ((snd (path ! (i - 1)) + snd (path ! i)) div 2)) 1, inMaze1)
         else (g1, inMaze1))"

definition carve_path ::
  "cell list \<Rightarrow> nat list list \<times> cell list \<Rightarrow> nat list list \<times> cell list" where
  "carve_path path gm = foldl (carve_cell path) gm [0..<length path]"

partial_function (option) wilson_walks ::
  "'s prng \<Rightarrow> nat \<Rightarrow> nat \<Rightarrow> cell list \<Rightarrow> nat list list \<times> cell list \<Rightarrow> 's
     \<Rightarrow> (nat list list, 's) drawn option" where
  "wilson_walks prng rs cs rooms gm st =
     (if length (snd gm) < length rooms then
        (case pick_root prng rooms (snd gm) st of
           None \<Rightarrow> None
         | Some (Drawn root' st1) \<Rightarrow>
             (case erased_walk prng rs cs (snd gm) [root'] ((\<lambda>_. None)(root' \<mapsto> 0)) st1 of
                None \<Rightarrow> None
              | Some (Drawn path st2) \<Rightarrow>
                  wilson_walks prng rs cs rooms (carve_path path gm) st2))
      else Some (Drawn (fst gm) st))"

declare wilson_walks.simps [code]

text \<open>\<^verbatim>\<open>pick\<close> of Wilson's generator: one draw among the floor cells.\<close>

definition wilson_pick ::
  "'s prng \<Rightarrow> nat \<Rightarrow> nat \<Rightarrow> nat list list \<Rightarrow> 's \<Rightarrow> (js_error + (cell, 's) drawn) option" where
  "wilson_pick prng rs cs g st =
     (case rand_int prng (length (floor_cells rs cs g)) st of Drawn k st' \<Rightarrow>
        Some (if k < length (floor_cells rs cs g) then Inr (Drawn (floor_cells rs cs g ! k) st')
              else Inl TypeError))"

definition wilson_generateSync ::
  "nat \<Rightarrow> nat \<Rightarrow> 's prng \<Rightarrow> 's \<Rightarrow> (js_error + (maze_spec, 's) drawn) option" where
  "wilson_generateSync rs cs prng st =
     (case draw_below prng (1 / 2) st of Drawn low st1 \<Rightarrow>
        (case rand_int prng (length (wilson_rooms (if low then 0 else 1) rs cs)) st1 of
           Drawn k st2 \<Rightarrow>
             if k < length (wilson_rooms (if low then 0 else 1) rs cs) then
               (case wilson_walks prng rs cs (wilson_rooms (if low then 0 else 1) rs cs)
                       (grid_set (replicate rs (replicate cs 0))
                          (nat (fst (wilson_rooms (if low then 0 else 1) rs cs ! k)))
                          (nat (snd (wilson_rooms (if low then 0 else 1) rs cs ! k))) 1,
                        [wilson_rooms (if low then 0 else 1) rs cs ! k]) st2 of
                  None \<Rightarrow> None
                | Some (Drawn g st3) \<Rightarrow> pick_start_goal (wilson_pick prng rs cs) g st3)
             else Some (Inl TypeError)))"

section \<open>The SearchFormer-style generator (generators/searchformer.js)\<close>

text \<open>
  \<^verbatim>\<open>runAstarSync\<close> is a second copy of the search: the statements of its loop are those
  of \<^verbatim>\<open>solveSync\<close> without the two pushes to \<^verbatim>\<open>reasoning\<close> (the inline scan for
  \<^verbatim>\<open>best\<close> is the scan of \<^verbatim>\<open>extractLowestFScore\<close>). The model runs the same steps and
  ignores the events. It differs at the ends: the path is built as soon as the goal is
  removed from the open set, by following back-pointers while there is one, and the result
  is \<^verbatim>\<open>null\<close> when the open set empties.
\<close>

partial_function (option) follow_back ::
  "(cell \<Rightarrow> cell option) \<Rightarrow> cell \<Rightarrow> cell list \<Rightarrow> cell list option" where
  "follow_back cf c path =
     (case cf c of None \<Rightarrow> Some path | Some prev \<Rightarrow> follow_back cf prev (path @ [prev]))"

declare follow_back.simps [code]

partial_function (option) runAstar_loop :: "solve_ctx \<Rightarrow> astar_state \<Rightarrow> cell list option option" where
  "runAstar_loop ctx s =
     (if openSet s = [] then Some None
      else if fst (pop_lowest ctx s) = (goalX ctx, goalY ctx) then
        Option.bind (follow_back (cameFrom s) (goalX ctx, goalY ctx) [(goalX ctx, goalY ctx)])
          (\<lambda>path. Some (Some (rev path)))
      else runAstar_loop ctx (expand ctx (fst (pop_lowest ctx s)) (snd (pop_lowest ctx s))))"

declare runAstar_loop.simps [code]

definition runAstarSync ::
  "nat \<Rightarrow> nat \<Rightarrow> nat list list \<Rightarrow> int \<Rightarrow> int \<Rightarrow> int \<Rightarrow> int \<Rightarrow> cell list option option" where
  "runAstarSync rs cs g sx sy gx gy =
     runAstar_loop
       \<lparr> grid = g, startX = sx, startY = sy, goalX = gx, goalY = gy,
         rows = rs, cols = cs, heuristic = manhattan \<rparr>
       (astar_init
         \<lparr> grid = g, startX = sx, startY = sy, goalX = gx, goalY = gy,
           rows = rs, cols = cs, heuristic = manhattan \<rparr>)"

text \<open>
  One placement attempt: \<^verbatim>\<open>free[0]\<close> and \<^verbatim>\<open>free[1]\<close> become start and goal and the
  search runs. With fewer than two free cells the coordinates are \<^verbatim>\<open>NaN\<close>: with none,
  the write to \<^verbatim>\<open>gScore[startY][startX]\<close> raises a TypeError; with one, which happens
  only on a grid of one cell, the search closes that cell and returns \<^verbatim>\<open>null\<close>.
\<close>

record placement =
  pl_path :: "cell list option"
  pl_start :: cell
  pl_goal :: cell

definition sf_cell :: "nat \<Rightarrow> nat \<Rightarrow> cell" where
  "sf_cell cs idx = (int (idx mod cs), int (idx div cs))"

definition place :: "nat \<Rightarrow> nat \<Rightarrow> nat list list \<Rightarrow> nat list \<Rightarrow> (js_error + placement) option" where
  "place rs cs g free =
     (if length free = 0 then Some (Inl TypeError)
      else if length free = 1 then
        Some (Inr \<lparr> pl_path = None, pl_start = sf_cell cs (free ! 0), pl_goal = (0, 0) \<rparr>)
      else
        (case runAstarSync rs cs g (fst (sf_cell cs (free ! 0))) (snd (sf_cell cs (free ! 0)))
                (fst (sf_cell cs (free ! 1))) (snd (sf_cell cs (free ! 1))) of
           None \<Rightarrow> None
         | Some path \<Rightarrow>
             Some (Inr \<lparr> pl_path = path, pl_start = sf_cell cs (free ! 0),
                         pl_goal = sf_cell cs (free ! 1) \<rparr>)))"

text \<open>
  The loop \<^verbatim>\<open>for (attempt = 0; attempt < 100; attempt++)\<close>, by the number of attempts
  left: it stops early on a path of at least \<^verbatim>\<open>Math.max(rows, cols)\<close> cells and shuffles
  \<^verbatim>\<open>free\<close> otherwise. Its result is the last placement tried.
\<close>

definition long_enough :: "nat \<Rightarrow> nat \<Rightarrow> cell list option \<Rightarrow> bool" where
  "long_enough rs cs path = (case path of None \<Rightarrow> False | Some p \<Rightarrow> length p \<ge> max rs cs)"

fun attempts ::
  "'s prng \<Rightarrow> nat \<Rightarrow> nat \<Rightarrow> nat list list \<Rightarrow> nat \<Rightarrow> nat list \<Rightarrow> placement \<Rightarrow> 's
     \<Rightarrow> (js_error + (placement, 's) drawn) option" where
  "attempts prng rs cs g 0 free pl st = Some (Inr (Drawn pl st))"
| "attempts prng rs cs g (Suc n) free pl st =
     (case place rs cs g free of
        None \<Rightarrow> None
      | Some (Inl e) \<Rightarrow> Some (Inl e)
      | Some (Inr pl') \<Rightarrow>
          if long_enough rs cs (pl_path pl') then Some (Inr (Drawn pl' st))
          else (case shuffle prng free st of
                  Drawn free' st' \<Rightarrow> attempts prng rs cs g n free' pl' st'))"

text \<open>
  The outer \<^verbatim>\<open>while (true)\<close>: shuffle \<^verbatim>\<open>indices\<close> (the same array on every pass), draw
  the number of walls, carve the passages, try placements, and leave the loop when
  \<^verbatim>\<open>path\<close> is not \<^verbatim>\<open>null\<close>.
\<close>

definition sf_grid :: "nat \<Rightarrow> nat \<Rightarrow> nat list \<Rightarrow> nat list list" where
  "sf_grid rs cs passages =
     foldl (\<lambda>g idx. grid_set g (idx mod cs) (idx div cs) 1) (replicate rs (replicate cs 0)) passages"

definition minWalls :: "nat \<Rightarrow> nat \<Rightarrow> nat" where
  "minWalls rs cs = (rs * cs) div 10 * 3"

definition maxWalls :: "nat \<Rightarrow> nat \<Rightarrow> nat" where
  "maxWalls rs cs = (rs * cs) div 10 * 5"

definition sf_place ::
  "'s prng \<Rightarrow> nat \<Rightarrow> nat \<Rightarrow> nat list \<Rightarrow> 's \<Rightarrow> (js_error + (placement, 's) drawn) option" where
  "sf_place prng rs cs passages st =
     (case shuffle prng passages st of Drawn free st1 \<Rightarrow>
        attempts prng rs cs (sf_grid rs cs passages) 100 free
          \<lparr> pl_path = None, pl_start = (0, 0), pl_goal = (0, 0) \<rparr> st1)"

partial_function (option) sf_sample ::
  "'s prng \<Rightarrow> nat \<Rightarrow> nat \<Rightarrow> nat list \<Rightarrow> 's \<Rightarrow> (js_error + (maze_spec, 's) drawn) option" where
  "sf_sample prng rs cs indices st =
     (case shuffle prng indices st of Drawn indices' st1 \<Rightarrow>
        (case rand_int prng (maxWalls rs cs - minWalls rs cs + 1) st1 of Drawn k st2 \<Rightarrow>
           (case sf_place prng rs cs (drop (minWalls rs cs + k) indices') st2 of
              None \<Rightarrow> None
            | Some (Inl e) \<Rightarrow> Some (Inl e)
            | Some (Inr (Drawn pl st3)) \<Rightarrow>
                (case pl_path pl of
                   Some path \<Rightarrow>
                     Some (Inr (Drawn
                       \<lparr> grid = sf_grid rs cs (drop (minWalls rs cs + k) indices'),
                         startX = fst (pl_start pl), startY = snd (pl_start pl),
                         goalX = fst (pl_goal pl), goalY = snd (pl_goal pl) \<rparr> st3))
                 | None \<Rightarrow> sf_sample prng rs cs indices' st3))))"

declare sf_sample.simps [code]

definition searchformer_generateSync ::
  "nat \<Rightarrow> nat \<Rightarrow> 's prng \<Rightarrow> 's \<Rightarrow> (js_error + (maze_spec, 's) drawn) option" where
  "searchformer_generateSync rs cs prng st = sf_sample prng rs cs [0..<rs * cs] st"

section \<open>The parallel pipeline (headless\_gen/producer-consumer.js, producer-worker.js)\<close>

text \<open>
  The producer generates the examples in index order with the one PRNG, so the line of
  example \<open>idx\<close> does not depend on how the indices are cut into batches; \<open>line idx\<close>
  stands for it. What depends on timing is the value of \<^verbatim>\<open>config.batchSize\<close> that the
  producer reads when it starts a batch: the dispatcher doubles \<^verbatim>\<open>currentBatchSize\<close> up
  to \<^verbatim>\<open>maxBatchSize\<close> and sends it in an \<^verbatim>\<open>update_batch_size\<close> message. The
  timing is the function \<open>updates\<close>: the number of such messages that the producer has
  handled before it starts its \<open>k\<close>-th batch.
\<close>

definition grow :: "nat \<Rightarrow> nat \<Rightarrow> nat" where
  "grow maxBatchSize currentBatchSize =
     (if currentBatchSize < maxBatchSize then min (currentBatchSize * 2) maxBatchSize
      else currentBatchSize)"

definition batch_size_at :: "nat \<Rightarrow> nat \<Rightarrow> (nat \<Rightarrow> nat) \<Rightarrow> nat \<Rightarrow> nat" where
  "batch_size_at batchSize maxBatchSize updates k = (grow maxBatchSize ^^ updates k) batchSize"

text \<open>
  The placeholders:
  \<^verbatim>\<open>for (batchStart = 0; batchStart < count; batchStart += batchSize)\<close>.
\<close>

partial_function (option) placeholder_keys :: "nat \<Rightarrow> nat \<Rightarrow> nat \<Rightarrow> nat list option" where
  "placeholder_keys batchSize count batchStart =
     (if batchStart < count then
        Option.bind (placeholder_keys batchSize count (batchStart + batchSize))
          (\<lambda>keys. Some (batchStart # keys))
      else Some [])"

declare placeholder_keys.simps [code]

text \<open>
  The producer's loop \<^verbatim>\<open>while (generatedCount < count)\<close>: the \<open>k\<close>-th batch holds
  the indices from \<^verbatim>\<open>generatedCount\<close> to \<^verbatim>\<open>Math.min(batchStart + currentBatchSize, count)\<close>.
\<close>

partial_function (option) produce ::
  "(nat \<Rightarrow> nat) \<Rightarrow> nat \<Rightarrow> nat \<Rightarrow> nat \<Rightarrow> (nat \<times> nat list) list option" where
  "produce size_at count k generatedCount =
     (if generatedCount < count then
        Option.bind
          (produce size_at count (Suc k)
             (generatedCount + length [generatedCount..<min (generatedCount + size_at k) count]))
          (\<lambda>batches.
             Some ((generatedCount, [generatedCount..<min (generatedCount + size_at k) count])
                   # batches))
      else Some [])"

declare produce.simps [code]

text \<open>
  A solver worker turns a batch into its lines, and the dispatcher resolves the promise
  stored under the batch's \<^verbatim>\<open>batchStart\<close>, if there is one. A key of \<^verbatim>\<open>batchPromises\<close>
  maps to \<open>None\<close> while its promise is pending and to the lines once it is resolved.
\<close>

definition resolve_batches ::
  "(nat \<Rightarrow> 'l) \<Rightarrow> nat list \<Rightarrow> (nat \<times> nat list) list \<Rightarrow> (nat \<rightharpoonup> 'l list option)" where
  "resolve_batches line keys batches =
     foldl (\<lambda>m (batchStart, batch).
              (case m batchStart of
                 Some None \<Rightarrow> m(batchStart \<mapsto> Some (map line batch))
               | _ \<Rightarrow> m))
       (map_of (map (\<lambda>k. (k, None)) keys)) batches"

text \<open>
  The consumer's loop \<^verbatim>\<open>while (nextYieldIdx < count)\<close>. It computes \<^verbatim>\<open>batchStart\<close>
  from the initial \<^verbatim>\<open>batchSize\<close>, awaits that promise (for ever when it stays pending;
  a missing entry raises a TypeError), yields the batch and deletes the entry. The result
  is the list of yielded batches and how the generator ends.
\<close>

partial_function (option) consume ::
  "nat \<Rightarrow> nat \<Rightarrow> (nat \<rightharpoonup> 'l list option) \<Rightarrow> nat \<Rightarrow> 'l list list
     \<Rightarrow> ('l list list \<times> completion) option" where
  "consume batchSize count batchPromises nextYieldIdx yielded =
     (if nextYieldIdx < count then
        (case batchPromises (nextYieldIdx div batchSize * batchSize) of
           None \<Rightarrow> Some (yielded, Threw TypeError)
         | Some None \<Rightarrow> Some (yielded, Never)
         | Some (Some lines) \<Rightarrow>
             consume batchSize count
               (if min (nextYieldIdx div batchSize * batchSize + length lines) count
                     \<ge> nextYieldIdx div batchSize * batchSize + length lines
                then batchPromises(nextYieldIdx div batchSize * batchSize := None)
                else batchPromises)
               (min (nextYieldIdx div batchSize * batchSize + length lines) count)
               (yielded @
                  [take (min (nextYieldIdx div batchSize * batchSize + length lines) count
                           - nextYieldIdx div batchSize * batchSize) lines]))
      else Some (yielded, Returned))"

declare consume.simps [code]

text \<open>
  \<^verbatim>\<open>generateDatasetParallel\<close> for a run without worker or producer errors, in which
  every generated batch is solved: the batches it yields and how it ends. \<open>None\<close> stands
  for a loop that never ends.
\<close>

definition generateDatasetParallel ::
  "(nat \<Rightarrow> 'l) \<Rightarrow> nat \<Rightarrow> nat \<Rightarrow> nat \<Rightarrow> (nat \<Rightarrow> nat) \<Rightarrow> ('l list list \<times> completion) option" where
  "generateDatasetParallel line count batchSize maxBatchSize updates =
     Option.bind (placeholder_keys batchSize count 0) (\<lambda>keys.
     Option.bind (produce (batch_size_at batchSize maxBatchSize updates) count 0 0) (\<lambda>batches.
       consume batchSize count (resolve_batches line keys batches) 0 []))"

section \<open>Notions used in the statements\<close>

text \<open>A \<^verbatim>\<open>prng\<close> whose draws lie in \<open>[0, 1)\<close>: the numerators lie in \<open>[0, 2^32)\<close>.\<close>

definition prng_in_range :: "'s prng \<Rightarrow> bool" where
  "prng_in_range prng = (\<forall>st. case prng st of Drawn d st' \<Rightarrow> 0 \<le> d \<and> d < 2 ^ 32)"

text \<open>
  Decimal numerals, as the specification's format uses them, stated without reference to
  the serializer: a numeral of a natural number is a non-empty string of the digits
  \<open>0\<close> to \<open>9\<close> that starts with \<open>0\<close> only if it is the string \<open>0\<close>, and whose
  digits, read in base ten from the left, give the number, the value of a digit being its
  place in \<open>0123456789\<close>; a negative integer has a minus sign before the numeral of its
  magnitude.
\<close>

definition is_digit :: "char \<Rightarrow> bool" where
  "is_digit c = (c \<in> set ''0123456789'')"

definition digit_value :: "char \<Rightarrow> nat" where
  "digit_value c = length (takeWhile (\<lambda>d. d \<noteq> c) ''0123456789'')"

definition digits_value :: "string \<Rightarrow> nat" where
  "digits_value w = foldl (\<lambda>a c. 10 * a + digit_value c) 0 w"

definition nat_numeral :: "nat \<Rightarrow> string \<Rightarrow> bool" where
  "nat_numeral n w =
     (w \<noteq> [] \<and> list_all is_digit w \<and> (hd w = CHR ''0'' \<longrightarrow> w = ''0'') \<and> digits_value w = n)"

definition numeral_of :: "int \<Rightarrow> string \<Rightarrow> bool" where
  "numeral_of i w =
     (if i < 0 then w \<noteq> [] \<and> hd w = CHR ''-'' \<and> nat_numeral (nat (- i)) (tl w)
      else nat_numeral (nat i) w)"

definition decimal :: "int \<Rightarrow> string" where
  "decimal i = (THE w. numeral_of i w)"

text \<open>
  The integers that a JavaScript number holds exactly, and a maze spec and solver output
  all of whose numbers are such integers: the coordinates, the dimensions of the grid, the
  cost values of the events.
\<close>

definition safe_integer :: "int \<Rightarrow> bool" where
  "safe_integer i = (- (2 ^ 53) < i \<and> i < 2 ^ 53)"

fun safe_event :: "event \<Rightarrow> bool" where
  "safe_event (Close x y g h) =
     (safe_integer x \<and> safe_integer y
      \<and> (case g of enat n \<Rightarrow> safe_integer (int n) | \<infinity> \<Rightarrow> False) \<and> safe_integer (int h))"
| "safe_event (Create x y g h) =
     (safe_integer x \<and> safe_integer y
      \<and> (case g of enat n \<Rightarrow> safe_integer (int n) | \<infinity> \<Rightarrow> False) \<and> safe_integer (int h))"

definition safe_numbers :: "maze_spec \<Rightarrow> event list \<Rightarrow> cell list \<Rightarrow> bool" where
  "safe_numbers spec trace plan =
     (safe_integer (startX spec) \<and> safe_integer (startY spec)
      \<and> safe_integer (goalX spec) \<and> safe_integer (goalY spec)
      \<and> safe_integer (int (length (grid spec))) \<and> safe_integer (int (length (hd (grid spec))))
      \<and> list_all safe_event trace
      \<and> list_all (\<lambda>(x, y). safe_integer x \<and> safe_integer y) plan)"

text \<open>
  The line that the specification describes, as the list of its words: the wall cells in
  row-major order, an event as its tag, its coordinates and the two cost words, and the
  words of the whole line.
\<close>

definition wall_cells :: "nat list list \<Rightarrow> (nat \<times> nat) list" where
  "wall_cells g =
     concat (map (\<lambda>y. concat (map (\<lambda>x. if g ! y ! x = 0 then [(x, y)] else [])
                                  [0..<length (hd g)])) [0..<length g])"

fun event_words :: "event \<Rightarrow> string list" where
  "event_words (Close x y g h) =
     [''close'', decimal x, decimal y, ''c'' @ decimal (int (the_enat g)), ''c'' @ decimal (int h)]"
| "event_words (Create x y g h) =
     [''create'', decimal x, decimal y, ''c'' @ decimal (int (the_enat g)), ''c'' @ decimal (int h)]"

fun event_cost :: "event \<Rightarrow> enat" where
  "event_cost (Close x y g h) = g"
| "event_cost (Create x y g h) = g"

definition line_words :: "maze_spec \<Rightarrow> event list \<Rightarrow> cell list \<Rightarrow> string list" where
  "line_words spec trace plan =
     [''query'', ''start'', decimal (startX spec), decimal (startY spec),
      ''goal'', decimal (goalX spec), decimal (goalY spec)]
     @ concat (map (\<lambda>(x, y). [''wall'', decimal (int x), decimal (int y)]) (wall_cells (grid spec)))
     @ [''reasoning'']
     @ concat (map event_words trace)
     @ [''solution'']
     @ concat (map (\<lambda>(x, y). [''plan'', decimal x, decimal y]) plan)
     @ [''end'']"

definition rectangular :: "nat list list \<Rightarrow> bool" where
  "rectangular g = (g \<noteq> [] \<and> (\<forall>row \<in> set g. length row = length (hd g)))"

text \<open>A string that \<^verbatim>\<open>JSON.stringify\<close> copies without an escape.\<close>

definition plain :: "string \<Rightarrow> bool" where
  "plain w = (\<forall>c \<in> set w. QuoteJSONChar c = [c])"

text \<open>
  Notions for the solver: the start and the goal as cells, the cells inside the grid, the
  passage cells, 4-connected neighbours, and a path of passage cells, which is a non-empty
  list of passage cells in which each cell is a neighbour of the one before. An input is
  solvable when such a path leads from the start to the goal. The solver's argument is well
  formed when \<^verbatim>\<open>rows\<close> and \<^verbatim>\<open>cols\<close> are the dimensions of the grid and the heuristic is the
  Manhattan distance, as the two callers of \<^verbatim>\<open>solveSync\<close> build it.
\<close>

definition start_cell :: "solve_ctx \<Rightarrow> cell" where
  "start_cell ctx = (startX ctx, startY ctx)"

definition goal_cell :: "solve_ctx \<Rightarrow> cell" where
  "goal_cell ctx = (goalX ctx, goalY ctx)"

definition in_bounds :: "solve_ctx \<Rightarrow> cell \<Rightarrow> bool" where
  "in_bounds ctx c = (0 \<le> fst c \<and> fst c < int (cols ctx) \<and> 0 \<le> snd c \<and> snd c < int (rows ctx))"

definition passage :: "solve_ctx \<Rightarrow> cell \<Rightarrow> bool" where
  "passage ctx c = (in_bounds ctx c \<and> grid_at (grid ctx) (fst c) (snd c) \<noteq> 0)"

definition adjacent :: "cell \<Rightarrow> cell \<Rightarrow> bool" where
  "adjacent c c' = (\<bar>fst c - fst c'\<bar> + \<bar>snd c - snd c'\<bar> = 1)"

fun passage_path :: "solve_ctx \<Rightarrow> cell list \<Rightarrow> bool" where
  "passage_path ctx [] = False"
| "passage_path ctx [c] = passage ctx c"
| "passage_path ctx (c # c' # cs) = (passage ctx c \<and> adjacent c c' \<and> passage_path ctx (c' # cs))"

definition solvable :: "solve_ctx \<Rightarrow> bool" where
  "solvable ctx = (\<exists>p. passage_path ctx p \<and> hd p = start_cell ctx \<and> last p = goal_cell ctx)"

definition well_formed :: "solve_ctx \<Rightarrow> bool" where
  "well_formed ctx = (length (grid ctx) = rows ctx \<and> (\<forall>row \<in> set (grid ctx). length row = cols ctx)
     \<and> heuristic ctx = manhattan)"

text \<open>
  The close events of a trace, the cell of an event, and the values \<open>g + h\<close> of the close
  events in the order of the trace.
\<close>

fun is_close :: "event \<Rightarrow> bool" where
  "is_close (Close x y g h) = True"
| "is_close (Create x y g h) = False"

fun event_cell :: "event \<Rightarrow> cell" where
  "event_cell (Close x y g h) = (x, y)"
| "event_cell (Create x y g h) = (x, y)"

fun event_heuristic :: "event \<Rightarrow> nat" where
  "event_heuristic (Close x y g h) = h"
| "event_heuristic (Create x y g h) = h"

definition close_events :: "event list \<Rightarrow> event list" where
  "close_events trace = filter is_close trace"

definition close_values :: "event list \<Rightarrow> enat list" where
  "close_values trace = map (\<lambda>e. event_cost e + enat (event_heuristic e)) (close_events trace)"

section \<open>The invariant of the search loop\<close>

text \<open>
  The neighbour of a cell in a direction of \<^verbatim>\<open>DIRS\<close>, the heuristic value of a cell, and
  the cells that \<open>n\<close> steps through passage cells reach from the start.
\<close>

definition neighbour :: "cell \<Rightarrow> int \<times> int \<Rightarrow> cell" where
  "neighbour c d = (fst c + fst d, snd c + snd d)"

definition h_cost :: "solve_ctx \<Rightarrow> cell \<Rightarrow> nat" where
  "h_cost ctx c = heuristic ctx (fst c) (snd c) (goalX ctx) (goalY ctx)"

inductive reach :: "solve_ctx \<Rightarrow> nat \<Rightarrow> cell \<Rightarrow> bool" for ctx where
  reach_start: "reach ctx 0 (start_cell ctx)"
| reach_step: "reach ctx n c \<Longrightarrow> d \<in> set DIRS \<Longrightarrow> passage ctx (neighbour c d)
               \<Longrightarrow> reach ctx (Suc n) (neighbour c d)"

text \<open>
  What holds of the state each time the loop tests \<^verbatim>\<open>openSet.length > 0\<close>, and, with a
  cell \<open>X\<close> given, between the visits of the neighbours of the cell \<open>X\<close> just closed.
  The open set has no duplicates and holds unclosed cells of the grid; a cell has a finite
  \<^verbatim>\<open>gScore\<close> exactly when it is open or closed, and then its \<^verbatim>\<open>fScore\<close> is
  \<open>g + h\<close>; a finite \<^verbatim>\<open>gScore\<close> is the length of a walk from the start, whose last step
  is recorded in \<^verbatim>\<open>cameFrom\<close>; the \<^verbatim>\<open>gScore\<close> of a closed cell is minimal, and every open
  neighbour of a closed cell has been offered the step from it; the values of the close
  events recorded so far are sorted and bounded by the \<^verbatim>\<open>fScore\<close> of every open cell.
\<close>

definition inv_open :: "solve_ctx \<Rightarrow> astar_state \<Rightarrow> bool" where
  "inv_open ctx s =
    (distinct (openSet s)
     \<and> (\<forall>c \<in> set (openSet s). \<not> closedSet s c \<and> in_bounds ctx c)
     \<and> (\<forall>c. gScore s c \<noteq> \<infinity> \<longleftrightarrow> c \<in> set (openSet s) \<or> closedSet s c)
     \<and> (\<forall>c. closedSet s c \<longrightarrow> in_bounds ctx c)
     \<and> (\<forall>c. gScore s c \<noteq> \<infinity> \<longrightarrow> fScore s c = gScore s c + enat (h_cost ctx c))
     \<and> \<not> closedSet s (goal_cell ctx)
     \<and> gScore s (start_cell ctx) = 0)"

definition inv_path :: "solve_ctx \<Rightarrow> astar_state \<Rightarrow> bool" where
  "inv_path ctx s =
    ((\<forall>c n. gScore s c = enat n \<longrightarrow> reach ctx n c)
     \<and> (\<forall>c n. gScore s c = enat n \<and> c \<noteq> start_cell ctx \<longrightarrow>
           (\<exists>p d. cameFrom s c = Some p \<and> closedSet s p \<and> gScore s p + 1 = enat n
                  \<and> d \<in> set DIRS \<and> c = neighbour p d \<and> passage ctx c)))"

definition inv_opt :: "solve_ctx \<Rightarrow> cell option \<Rightarrow> astar_state \<Rightarrow> bool" where
  "inv_opt ctx X s =
    ((\<forall>c n. closedSet s c \<and> reach ctx n c \<longrightarrow> gScore s c \<le> enat n)
     \<and> (\<forall>c d. closedSet s c \<and> Some c \<noteq> X \<and> d \<in> set DIRS \<and> passage ctx (neighbour c d)
              \<and> \<not> closedSet s (neighbour c d)
            \<longrightarrow> gScore s (neighbour c d) \<le> gScore s c + 1))"

definition inv_trace :: "solve_ctx \<Rightarrow> cell option \<Rightarrow> astar_state \<Rightarrow> bool" where
  "inv_trace ctx X s =
    (sorted (close_values (reasoning s))
     \<and> (\<forall>v \<in> set (close_values (reasoning s)). \<forall>c \<in> set (openSet s). v \<le> fScore s c)
     \<and> (\<forall>cur. X = Some cur \<longrightarrow>
           (\<forall>v \<in> set (close_values (reasoning s)). v \<le> gScore s cur + enat (h_cost ctx cur)))
     \<and> list_all (\<lambda>e. event_cost e \<noteq> \<infinity>) (reasoning s)
     \<and> (reasoning s = [] \<longrightarrow> openSet s = [start_cell ctx] \<and> X = None)
     \<and> (reasoning s \<noteq> [] \<longrightarrow> (\<exists>g h. hd (reasoning s) = Close (startX ctx) (startY ctx) g h)))"

definition astar_inv :: "solve_ctx \<Rightarrow> cell option \<Rightarrow> astar_state \<Rightarrow> bool" where
  "astar_inv ctx X s =
    (inv_open ctx s \<and> inv_path ctx s \<and> inv_opt ctx X s \<and> inv_trace ctx X s
     \<and> (\<forall>cur. X = Some cur \<longrightarrow> closedSet s cur))"

section \<open>Properties of the pseudo-random number source\<close>

lemma lcg_step_range: "0 \<le> lcg_step s \<and> lcg_step s < 2 ^ 32"
  by (simp add: lcg_step_def)

lemma lcg_call_range: "0 \<le> fst (lcg_call s) \<and> fst (lcg_call s) < 1"
proof -
  have "(of_int (lcg_step s) :: rat) < of_int (2 ^ 32)"
    using lcg_step_range [of s] by (simp only: of_int_less_iff)
  moreover have "(0 :: rat) \<le> of_int (lcg_step s)"
    using lcg_step_range [of s] by simp
  ultimately show ?thesis
    by (simp add: lcg_call_def Let_def)
qed

lemma lcg_draw_is_lcg_call:
  "lcg_draw s = Drawn d s' \<Longrightarrow> lcg_call s = (of_int d / 2 ^ 32, s')"
  by (auto simp add: lcg_call_def lcg_draw_def Let_def)

lemma rand_int_is_floor:
  "prng st = Drawn d st'
   \<Longrightarrow> rand_int prng n st = Drawn (nat \<lfloor>(of_int d / 2 ^ 32 :: rat) * of_nat n\<rfloor>) st'"
proof -
  have "\<lfloor>(of_int (d * int n) :: rat) / of_int (2 ^ 32)\<rfloor> = (d * int n) div 2 ^ 32"
    by (rule floor_divide_of_int_eq)
  then show "prng st = Drawn d st'
    \<Longrightarrow> rand_int prng n st = Drawn (nat \<lfloor>(of_int d / 2 ^ 32 :: rat) * of_nat n\<rfloor>) st'"
    by (simp add: rand_int_def)
qed

text \<open>
  Claim C2, as stated: the first draw of \<^verbatim>\<open>seedLCG(42)\<close> is \<open>3572282541 / 2^32\<close>.
  The code gives another number: \<open>1664525 * 42 + 1013904223 = 1083814273\<close>, which is
  already below \<open>2^32\<close>.
\<close>

theorem C2_first_draw_counterexample:
  "fst (lcg_call (seedLCG 42)) \<noteq> 3572282541 / 2 ^ 32"
  by (simp add: lcg_call_def lcg_step_def seedLCG_def)

text \<open>
  Claim C2, amended: a draw advances the sole 32-bit state by
  \<open>state' = (1664525 * state + 1013904223) mod 2^32\<close> and returns \<open>state' / 2^32\<close>, a value
  in \<open>[0, 1)\<close>; the first draw of \<^verbatim>\<open>seedLCG(42)\<close> is \<open>1083814273 / 2^32\<close>.
\<close>

theorem C2_first_draw:
  "snd (lcg_call s) = (1664525 * s + 1013904223) mod 2 ^ 32
   \<and> fst (lcg_call s) = of_int (snd (lcg_call s)) / 2 ^ 32
   \<and> 0 \<le> fst (lcg_call s) \<and> fst (lcg_call s) < 1
   \<and> fst (lcg_call (seedLCG 42)) = 1083814273 / 2 ^ 32"
  using lcg_call_range [of s]
  by (simp add: lcg_call_def Let_def lcg_step_def seedLCG_def)

section \<open>Properties of the solver\<close>

text \<open>
  Claim C4 says that \<^verbatim>\<open>solveSync\<close> ends with no plan when the goal cannot be reached.
  On the one-row grid \<open>[[1, 0, 1]]\<close> with start \<open>(0, 0)\<close> and goal \<open>(2, 0)\<close> the open set
  empties after the start is closed, and the call returns the two-cell plan
  \<open>[(0, 0), (2, 0)]\<close>: path reconstruction stops at the goal's missing back-pointer and
  then appends the start.
\<close>

theorem C4_unreachable_goal_returns_plan:
  "solveSync (solver_ctx 1 3 \<lparr> grid = [[1, 0, 1]], startX = 0, startY = 0, goalX = 2, goalY = 0 \<rparr>)
     = Some ([Close 0 0 0 2], [(0, 0), (2, 0)])"
  by code_simp

section \<open>Properties of the generators\<close>

lemma lcg_draw_in_range: "prng_in_range lcg_draw"
  using lcg_step_range by (simp add: prng_in_range_def lcg_draw_def)

lemma rand_int_small:
  assumes "prng_in_range prng" and "n \<le> 1"
  shows "\<exists>st'. rand_int prng n st = Drawn 0 st'"
proof -
  obtain d st' where p: "prng st = Drawn d st'"
    by (cases "prng st") auto
  from assms(1) p have d: "0 \<le> d" "d < 2 ^ 32"
    by (auto simp add: prng_in_range_def dest: spec [of _ st])
  from assms(2) have "n = 0 \<or> n = 1" by auto
  with d have "(d * int n) div 2 ^ 32 = 0" by auto
  with p show ?thesis by (simp add: rand_int_def)
qed

text \<open>
  With at most one floor cell every draw of an index is \<open>0\<close>, so the loop that waits for
  an index other than \<open>a = 0\<close> has no result.
\<close>

lemma draw_other_Some_False:
  assumes "draw_other prng n a st = Some y"
  shows "prng_in_range prng \<longrightarrow> n \<le> 1 \<longrightarrow> a = 0 \<longrightarrow> False"
proof (rule draw_other.raw_induct
    [where P = "\<lambda>prng n a st y. prng_in_range prng \<longrightarrow> n \<le> 1 \<longrightarrow> a = 0 \<longrightarrow> False", OF _ assms])
  fix f :: "'a prng \<Rightarrow> nat \<Rightarrow> nat \<Rightarrow> 'a \<Rightarrow> (nat, 'a) drawn option"
  fix prng n a st y
  assume IH: "\<And>prng n a st y. f prng n a st = Some y
                \<Longrightarrow> prng_in_range prng \<longrightarrow> n \<le> 1 \<longrightarrow> a = 0 \<longrightarrow> False"
    and body: "(case rand_int prng n st of
                  Drawn b st' \<Rightarrow> if b = a then f prng n a st' else Some (Drawn b st')) = Some y"
  show "prng_in_range prng \<longrightarrow> n \<le> 1 \<longrightarrow> a = 0 \<longrightarrow> False"
  proof (intro impI)
    assume r: "prng_in_range prng" and n: "n \<le> 1" and a: "a = 0"
    from rand_int_small [OF r n, of st] obtain st' where "rand_int prng n st = Drawn 0 st'"
      by auto
    with body a have "f prng n a st' = Some y" by simp
    from IH [OF this] r n a show False by simp
  qed
qed

lemma draw_other_never:
  assumes "prng_in_range prng" and "n \<le> 1"
  shows "draw_other prng n 0 st = None"
proof (cases "draw_other prng n 0 st")
  case None
  then show ?thesis .
next
  case (Some y)
  from draw_other_Some_False [OF this] assms show ?thesis by simp
qed

lemma pick_distinct_never:
  assumes "prng_in_range prng" and "length floors \<le> 1"
  shows "pick_distinct prng g floors st = None"
proof -
  from rand_int_small [OF assms, of st] obtain st' where
    "rand_int prng (length floors) st = Drawn 0 st'" by auto
  then show ?thesis
    by (simp add: pick_distinct_def draw_other_never [OF assms])
qed

text \<open>With \<^verbatim>\<open>fillProbability = 1\<close> every cell is filled as a wall.\<close>

lemma draw_below_one:
  assumes "prng_in_range prng"
  shows "\<exists>st'. draw_below prng 1 st = Drawn True st'"
proof -
  obtain d st' where p: "prng st = Drawn d st'"
    by (cases "prng st") auto
  from assms p have "d < 2 ^ 32"
    by (auto simp add: prng_in_range_def dest: spec [of _ st])
  then have "(of_int d :: rat) < of_int (2 ^ 32)"
    by (simp only: of_int_less_iff)
  with p show ?thesis by (simp add: draw_below_def)
qed

lemma fill_row_one:
  assumes "prng_in_range prng"
  shows "\<exists>st'. fill_row prng 1 n st = Drawn (replicate n 0) st'"
proof (induction n arbitrary: st)
  case 0
  show ?case by simp
next
  case (Suc n)
  from draw_below_one [OF assms, of st] obtain st1 where
    d: "draw_below prng 1 st = Drawn True st1" by auto
  from Suc [of st1] obtain st2 where "fill_row prng 1 n st1 = Drawn (replicate n 0) st2"
    by auto
  with d show ?case by simp
qed

lemma fill_grid_one:
  assumes "prng_in_range prng"
  shows "\<exists>st'. fill_grid prng 1 rs cs st = Drawn (replicate rs (replicate cs 0)) st'"
proof (induction rs arbitrary: st)
  case 0
  show ?case by simp
next
  case (Suc rs)
  from fill_row_one [OF assms, of cs st] obtain st1 where
    r: "fill_row prng 1 cs st = Drawn (replicate cs 0) st1" by auto
  from Suc [of st1] obtain st2 where
    "fill_grid prng 1 rs cs st1 = Drawn (replicate rs (replicate cs 0)) st2" by auto
  with r show ?case by simp
qed

text \<open>On a grid of walls every cell has eight live neighbours, and stays a wall.\<close>

lemma walls_alive:
  "nx < 0 \<or> nx \<ge> int cs \<or> ny < 0 \<or> ny \<ge> int rs
     \<or> grid_at (replicate rs (replicate cs 0)) nx ny = 0"
proof (cases "0 \<le> nx \<and> nx < int cs \<and> 0 \<le> ny \<and> ny < int rs")
  case True
  then have "nat ny < rs" and "nat nx < cs" by auto
  then show ?thesis by (simp add: grid_at_def)
next
  case False
  then show ?thesis by auto
qed

lemma countAlive_walls: "countAlive rs cs (replicate rs (replicate cs 0)) y x = 8"
  using walls_alive [of _ cs _ rs] by (simp add: countAlive_def Let_def)

lemma ca_step_walls:
  assumes "sv \<le> 8"
  shows "ca_step rs cs sv bt (replicate rs (replicate cs 0)) = replicate rs (replicate cs 0)"
proof -
  let ?g = "replicate rs (replicate cs (0::nat))"
  let ?cell = "\<lambda>y x. let alive = countAlive rs cs ?g (int y) (int x)
                      in if ?g ! y ! x = 0 then (if alive < sv then 1 else 0)
                         else (if alive > bt then 0 else (1::nat))"
  have row: "map (?cell y) [0..<cs] = replicate cs (0::nat)" if "y < rs" for y
  proof -
    have "map (?cell y) [0..<cs] = map (\<lambda>x. (0::nat)) [0..<cs]"
      using that assms by (intro map_cong) (auto simp add: countAlive_walls)
    then show ?thesis by (simp add: map_replicate_const)
  qed
  have "map (\<lambda>y. map (?cell y) [0..<cs]) [0..<rs] = map (\<lambda>y. replicate cs (0::nat)) [0..<rs]"
  proof (rule map_cong [OF refl])
    fix y assume "y \<in> set [0..<rs]"
    then have "y < rs" by simp
    from row [OF this] show "map (?cell y) [0..<cs] = replicate cs 0" .
  qed
  then show ?thesis by (simp add: ca_step_def map_replicate_const)
qed

lemma ca_iterate_walls:
  assumes "sv \<le> 8"
  shows "ca_iterate rs cs sv bt n (replicate rs (replicate cs 0)) = replicate rs (replicate cs 0)"
  by (induction n) (simp_all add: ca_step_walls [OF assms])

lemma floor_cells_walls: "floor_cells rs cs (replicate rs (replicate cs 0)) = []"
  by (auto simp add: floor_cells_def)

lemma ca_grid_all_walls:
  assumes "prng_in_range prng" and "sv \<le> 8"
  shows "\<exists>st'. ca_grid rs cs prng 1 sv bt n st = Drawn (replicate rs (replicate cs 0)) st'"
proof -
  from fill_grid_one [OF assms(1), of rs cs st] obtain st1 where
    "fill_grid prng 1 rs cs st = Drawn (replicate rs (replicate cs 0)) st1" by auto
  then show ?thesis
    by (simp add: ca_grid_def ca_iterate_walls [OF assms(2)])
qed

text \<open>
  Claim C10: \<^verbatim>\<open>generateSync\<close> of the cellular automata generator returns only if at
  least two floor cells are left after the iterations. When the grid after the iterations
  has no floor cell or one, the loop that draws \<open>b\<close> until \<open>b \<noteq> a\<close> never ends; this is
  the case with \<^verbatim>\<open>fillProbability = 1\<close> (and a survival threshold of at most 8), where
  the grid is filled with walls and the rule keeps it so.
\<close>

theorem C10_cellular_automata_needs_two_floors:
  assumes "prng_in_range prng"
  shows "(\<forall>g st1. ca_grid rs cs prng p sv bt n st = Drawn g st1 \<and> length (floor_cells rs cs g) \<le> 1
            \<longrightarrow> cellular_automata_generateSync rs cs prng p sv bt n st = None)
       \<and> (\<forall>r g st1. cellular_automata_generateSync rs cs prng p sv bt n st = Some r
            \<and> ca_grid rs cs prng p sv bt n st = Drawn g st1
            \<longrightarrow> 2 \<le> length (floor_cells rs cs g))
       \<and> (sv \<le> 8 \<longrightarrow>
            (\<exists>st1. ca_grid rs cs prng 1 sv bt n st = Drawn (replicate rs (replicate cs 0)) st1)
            \<and> cellular_automata_generateSync rs cs prng 1 sv bt n st = None)"
proof -
  have few: "cellular_automata_generateSync rs cs prng q sv bt n st = None"
    if "ca_grid rs cs prng q sv bt n st = Drawn g st1" and "length (floor_cells rs cs g) \<le> 1"
    for q g st1
    using that by (simp add: cellular_automata_generateSync_def pick_distinct_never [OF assms])
  have walls: "(\<exists>st1. ca_grid rs cs prng 1 sv bt n st = Drawn (replicate rs (replicate cs 0)) st1)
       \<and> cellular_automata_generateSync rs cs prng 1 sv bt n st = None" if "sv \<le> 8"
  proof -
    from ca_grid_all_walls [OF assms that, of rs cs bt n st] obtain st1 where
      g: "ca_grid rs cs prng 1 sv bt n st = Drawn (replicate rs (replicate cs 0)) st1" by auto
    from few [OF g] g show ?thesis by (auto simp add: floor_cells_walls)
  qed
  from few walls show ?thesis
    by (metis not_less_eq_eq numeral_2_eq_2 option.distinct(1) One_nat_def)
qed

text \<open>
  The default parameters on a 4 by 4 grid with the default seed 42 in mode \<^verbatim>\<open>train\<close>:
  after three iterations no floor cell is left.
\<close>

lemma ca_grid_4_4:
  "ca_grid 4 4 lcg_draw (45 / 100) 4 5 3 (seedLCG (prngSeed ''train'' 42))
     = Drawn [[0, 0, 0, 0], [0, 0, 0, 0], [0, 0, 0, 0], [0, 0, 0, 0]] 2863667620"
  by code_simp

lemma floor_cells_4_4:
  "floor_cells 4 4 [[0, 0, 0, 0], [0, 0, 0, 0], [0, 0, 0, 0], [0, 0, 0, 0]] = []"
  by code_simp

theorem C10_cellular_automata_needs_two_floors_witness:
  "prng_in_range lcg_draw
   \<and> ca_grid 4 4 lcg_draw (45 / 100) 4 5 3 (seedLCG (prngSeed ''train'' 42))
       = Drawn [[0, 0, 0, 0], [0, 0, 0, 0], [0, 0, 0, 0], [0, 0, 0, 0]] 2863667620
   \<and> length (floor_cells 4 4 [[0, 0, 0, 0], [0, 0, 0, 0], [0, 0, 0, 0], [0, 0, 0, 0]]) \<le> 1
   \<and> cellular_automata_generateSync 4 4 lcg_draw (45 / 100) 4 5 3 (seedLCG (prngSeed ''train'' 42))
       = None
   \<and> (4::int) \<le> 8
   \<and> cellular_automata_generateSync 4 4 lcg_draw 1 4 5 3 (seedLCG (prngSeed ''train'' 42)) = None"
  using C10_cellular_automata_needs_two_floors [OF lcg_draw_in_range,
      of 4 4 "45 / 100" 4 5 3 "seedLCG (prngSeed ''train'' 42)"]
    lcg_draw_in_range ca_grid_4_4 floor_cells_4_4
  by simp

text \<open>Kruskal's and Wilson's generators on a 3 by 3 grid with seed 400 in mode \<^verbatim>\<open>train\<close>.\<close>

lemma kruskal_3_3:
  "kruskal_generateSync 3 3 lcg_draw (seedLCG (prngSeed ''train'' 400))
     = Some (Inr (Drawn \<lparr> grid = [[0, 0, 0], [0, 1, 0], [0, 0, 0]],
                          startX = 1, startY = 1, goalX = 1, goalY = 1 \<rparr> 2469331857))"
  by code_simp

lemma wilson_3_3:
  "wilson_generateSync 3 3 lcg_draw (seedLCG (prngSeed ''train'' 400))
     = Some (Inr (Drawn \<lparr> grid = [[0, 0, 0], [0, 1, 0], [0, 0, 0]],
                          startX = 1, startY = 1, goalX = 1, goalY = 1 \<rparr> 2392655779))"
  by code_simp

lemma solveSync_3_3:
  "solveSync (solver_ctx 3 3 \<lparr> grid = [[0, 0, 0], [0, 1, 0], [0, 0, 0]],
                                startX = 1, startY = 1, goalX = 1, goalY = 1 \<rparr>)
     = Some ([Close 1 1 0 0], [(1, 1)])"
  by code_simp

section \<open>Properties of the sequential public API\<close>

lemma serializeExample_positional:
  "serializeExample_call [SpecObj spec, ReasoningArr trace, PlanArr plan] = Inl TypeError"
  by (simp add: serializeExample_call_def)

lemma generateDataset_loop_no_line: "fst (generateDataset_loop gen solve n st) = []"
  by (cases n)
    (auto simp add: serializeExample_positional split: option.splits sum.splits drawn.splits)

lemma generateDataset_loop_throws:
  assumes "gen st = Some (Inr (Drawn spec st'))" and "solve spec = Some sol"
  shows "snd (generateDataset_loop gen solve (Suc n) st) = Threw TypeError"
  using assms by (cases sol) (simp add: serializeExample_positional)

text \<open>
  Claim C9, as stated, has \<^verbatim>\<open>generateDataset\<close> throw a TypeError for every valid
  configuration. The cellular automata generator with its default parameters, 4 rows,
  4 columns, seed 42 and mode \<^verbatim>\<open>train\<close> never returns the first maze, so nothing is
  thrown: the call yields no line and never ends.
\<close>

theorem C9_generateDataset_counterexample:
  "generateDataset cellular_automata_default solveSync 4 4 ''train'' 42 1 = ([], Never)"
proof -
  have "cellular_automata_generateSync 4 4 lcg_draw (45 / 100) 4 5 3
          (seedLCG (prngSeed ''train'' 42)) = None"
    using ca_grid_4_4 floor_cells_4_4
    by (simp add: cellular_automata_generateSync_def pick_distinct_never [OF lcg_draw_in_range])
  then show ?thesis
    by (simp add: generateDataset_def cellular_automata_default_def)
qed

text \<open>
  Claim C9, amended: \<^verbatim>\<open>generateDataset\<close> never yields a line, whatever the generator
  and the solver; and whenever \<^verbatim>\<open>generateSync\<close> and \<^verbatim>\<open>solveSync\<close> return for the first
  example (and \<open>count \<ge> 1\<close>), it throws a TypeError while serializing that example,
  because \<^verbatim>\<open>serializeExample\<close> receives the spec where it expects the object
  \<^verbatim>\<open>{ spec, solution, generatorId, solverId }\<close>.
\<close>

theorem C9_generateDataset:
  "fst (generateDataset gen solve rs cs mode seed count) = []
   \<and> (count \<ge> 1
        \<and> gen rs cs lcg_draw (seedLCG (prngSeed mode seed)) = Some (Inr (Drawn spec st'))
        \<and> solve (solver_ctx rs cs spec) = Some sol
      \<longrightarrow> snd (generateDataset gen solve rs cs mode seed count) = Threw TypeError)"
proof -
  have "snd (generateDataset gen solve rs cs mode seed count) = Threw TypeError"
    if "count \<ge> 1"
      and "gen rs cs lcg_draw (seedLCG (prngSeed mode seed)) = Some (Inr (Drawn spec st'))"
      and "solve (solver_ctx rs cs spec) = Some sol"
  proof -
    from that(1) obtain n where "count = Suc n" by (cases count) auto
    with that(2,3) show ?thesis
      unfolding generateDataset_def by (simp only: generateDataset_loop_throws)
  qed
  then show ?thesis
    by (simp add: generateDataset_def generateDataset_loop_no_line)
qed

theorem C9_generateDataset_witness:
  "fst (generateDataset kruskal_generateSync solveSync 3 3 ''train'' 400 1) = []
   \<and> (1::nat) \<ge> 1
   \<and> kruskal_generateSync 3 3 lcg_draw (seedLCG (prngSeed ''train'' 400))
       = Some (Inr (Drawn \<lparr> grid = [[0, 0, 0], [0, 1, 0], [0, 0, 0]],
                            startX = 1, startY = 1, goalX = 1, goalY = 1 \<rparr> 2469331857))
   \<and> solveSync (solver_ctx 3 3 \<lparr> grid = [[0, 0, 0], [0, 1, 0], [0, 0, 0]],
                                  startX = 1, startY = 1, goalX = 1, goalY = 1 \<rparr>)
       = Some ([Close 1 1 0 0], [(1, 1)])
   \<and> snd (generateDataset kruskal_generateSync solveSync 3 3 ''train'' 400 1) = Threw TypeError"
  using C9_generateDataset [of kruskal_generateSync solveSync 3 3 "''train''" 400 1
      "\<lparr> grid = [[0, 0, 0], [0, 1, 0], [0, 0, 0]],
         startX = 1, startY = 1, goalX = 1, goalY = 1 \<rparr>" 2469331857
      "([Close 1 1 0 0], [(1, 1)])"]
    kruskal_3_3 solveSync_3_3
  by simp

section \<open>Start and goal of Kruskal's and Wilson's generators\<close>

text \<open>
  Claim C5 wants start and goal distinct for every emitted example. On a 3 by 3 grid with
  seed 400 in mode \<^verbatim>\<open>train\<close> the first draw is above one half, the only room is
  \<open>(1, 1)\<close>, and both generators return it as start and as goal: the second pick of the
  goal finds the same cell again.
\<close>

theorem C5_start_equals_goal:
  "kruskal_generateSync 3 3 lcg_draw (seedLCG (prngSeed ''train'' 400))
     = Some (Inr (Drawn \<lparr> grid = [[0, 0, 0], [0, 1, 0], [0, 0, 0]],
                          startX = 1, startY = 1, goalX = 1, goalY = 1 \<rparr> 2469331857))
   \<and> wilson_generateSync 3 3 lcg_draw (seedLCG (prngSeed ''train'' 400))
     = Some (Inr (Drawn \<lparr> grid = [[0, 0, 0], [0, 1, 0], [0, 0, 0]],
                          startX = 1, startY = 1, goalX = 1, goalY = 1 \<rparr> 2392655779))"
  using kruskal_3_3 wilson_3_3 by simp

section \<open>The placement loop of the SearchFormer-style generator\<close>

text \<open>
  Claim C3 says that a start/goal pair is committed only with a path of at least
  \<open>max rows cols\<close> cells. On a 1 by 3 grid with a \<^verbatim>\<open>prng\<close> that always returns
  \<open>0.75\<close>, every shuffle leaves its array as it is, so all 100 attempts place start and
  goal on the cells \<open>0\<close> and \<open>1\<close>, whose path has two cells; the last path is not
  \<^verbatim>\<open>null\<close>, and the spec is returned with it.
\<close>

theorem C3_short_path_committed:
  "searchformer_generateSync 1 3 (\<lambda>st :: unit. Drawn (3 * 2 ^ 30) st) ()
     = Some (Inr (Drawn \<lparr> grid = [[1, 1, 1]], startX = 0, startY = 0, goalX = 1, goalY = 0 \<rparr> ()))
   \<and> runAstarSync 1 3 [[1, 1, 1]] 0 0 1 0 = Some (Some [(0, 0), (1, 0)])
   \<and> length [(0 :: int, 0 :: int), (1, 0)] < max (1 :: nat) 3"
  by code_simp

section \<open>Order of the lines of the parallel pipeline\<close>

text \<open>
  Claim C1 wants the consumer to yield the lines \<open>0, \<dots>, count - 1\<close> for every initial
  batch size and every growth of the batch size. With \<open>count = 20\<close>, \<open>batchSize = 2\<close>,
  \<open>maxBatchSize = 3\<close> and the first update of the batch size handled by the producer
  before its sixth batch, the batches start at \<open>0, 2, 4, 6, 8, 10, 13, 16, 19\<close>. The
  consumer yields the lines \<open>0\<close> to \<open>12\<close> and then awaits the placeholder of batch
  \<open>12\<close>, which no batch resolves: the lines \<open>13\<close> to \<open>19\<close> are never yielded.
\<close>

theorem C1_consumer_waits_forever:
  "generateDatasetParallel (line :: nat \<Rightarrow> string) 20 2 3 (\<lambda>k. if k < 5 then 0 else 1)
     = Some ([[line 0, line 1], [line 2, line 3], [line 4, line 5], [line 6, line 7],
              [line 8, line 9], [line 10, line 11, line 12]], Never)"
  by code_simp

section \<open>Properties of the serializer\<close>

text \<open>
  The string that \<open>Number_toString\<close> gives is a decimal numeral of its argument, and the
  only one.
\<close>

lemma of_char_digit: "d < 10 \<Longrightarrow> (of_char (digit_char d) :: nat) = 48 + d"
  by (simp add: digit_char_def)

lemma digit_cases:
  assumes "d < 10"
  shows "d = 0 \<or> d = 1 \<or> d = 2 \<or> d = 3 \<or> d = 4 \<or> d = 5 \<or> d = 6 \<or> d = 7 \<or> d = 8 \<or> d = (9::nat)"
  using assms by arith

lemma is_digit_digit_char: "d < 10 \<Longrightarrow> is_digit (digit_char d)"
  by (drule digit_cases) (elim disjE; hypsubst; code_simp)

lemma digit_value_digit_char: "d < 10 \<Longrightarrow> digit_value (digit_char d) = d"
  by (drule digit_cases) (elim disjE; hypsubst; code_simp)

lemma digit_char_digit_value:
  assumes "is_digit c"
  shows "digit_value c < 10 \<and> digit_char (digit_value c) = c"
proof -
  from assms have "c = CHR ''0'' \<or> c = CHR ''1'' \<or> c = CHR ''2'' \<or> c = CHR ''3'' \<or> c = CHR ''4''
      \<or> c = CHR ''5'' \<or> c = CHR ''6'' \<or> c = CHR ''7'' \<or> c = CHR ''8'' \<or> c = CHR ''9''"
    by (simp add: is_digit_def)
  then show ?thesis by (elim disjE; hypsubst; code_simp)
qed

lemma nat_to_string_nonempty: "nat_to_string n \<noteq> []"
  by (subst nat_to_string.simps) simp

lemma nat_to_string_digits: "list_all is_digit (nat_to_string n)"
proof (induction n rule: nat_to_string.induct)
  case (1 n)
  show ?case
  proof (cases "n < 10")
    case True
    then show ?thesis
      by (subst nat_to_string.simps) (simp add: is_digit_digit_char)
  next
    case False
    with 1 show ?thesis
      by (subst nat_to_string.simps) (simp add: is_digit_digit_char)
  qed
qed

lemma digits_value_snoc: "digits_value (w @ [c]) = 10 * digits_value w + digit_value c"
  by (simp add: digits_value_def)

lemma digits_value_nat_to_string: "digits_value (nat_to_string n) = n"
proof (induction n rule: nat_to_string.induct)
  case (1 n)
  show ?case
  proof (cases "n < 10")
    case True
    then show ?thesis
      by (subst nat_to_string.simps) (simp add: digits_value_def digit_value_digit_char)
  next
    case False
    with 1 have "digits_value (nat_to_string (n div 10)) = n div 10" by simp
    with False show ?thesis
      by (subst nat_to_string.simps) (simp add: digits_value_snoc digit_value_digit_char)
  qed
qed

lemma digit_char_zero: "d < 10 \<Longrightarrow> digit_char d = CHR ''0'' \<Longrightarrow> d = 0"
proof -
  assume d: "d < 10" and z: "digit_char d = CHR ''0''"
  from z have "(of_char (digit_char d) :: nat) = of_char CHR ''0''" by simp
  with d show "d = 0" by (simp add: of_char_digit)
qed

lemma nat_to_string_no_leading_zero: "n \<noteq> 0 \<Longrightarrow> hd (nat_to_string n) \<noteq> CHR ''0''"
proof (induction n rule: nat_to_string.induct)
  case (1 n)
  show ?case
  proof (cases "n < 10")
    case True
    with 1(2) show ?thesis
      by (subst nat_to_string.simps) (auto dest: digit_char_zero)
  next
    case False
    then have "n div 10 \<noteq> 0" by simp
    with 1(1) False have "hd (nat_to_string (n div 10)) \<noteq> CHR ''0''" by simp
    with False show ?thesis
      by (subst nat_to_string.simps) (simp add: nat_to_string_nonempty)
  qed
qed

lemma nat_to_string_zero: "nat_to_string 0 = ''0''"
  by code_simp

lemma nat_numeral_nat_to_string: "nat_numeral n (nat_to_string n)"
proof -
  have "hd (nat_to_string n) = CHR ''0'' \<longrightarrow> nat_to_string n = ''0''"
    using nat_to_string_no_leading_zero [of n] nat_to_string_zero by (cases "n = 0") simp_all
  then show ?thesis
    unfolding nat_numeral_def
    using nat_to_string_nonempty nat_to_string_digits digits_value_nat_to_string by blast
qed

lemma nat_to_string_digits_value:
  "w \<noteq> [] \<Longrightarrow> list_all is_digit w \<Longrightarrow> (hd w = CHR ''0'' \<longrightarrow> w = ''0'')
   \<Longrightarrow> nat_to_string (digits_value w) = w"
proof (induction w rule: rev_induct)
  case Nil
  then show ?case by simp
next
  case (snoc c u)
  from snoc.prems(2) have c: "is_digit c" and u: "list_all is_digit u" by simp_all
  from c have c10: "digit_value c < 10" and cc: "digit_char (digit_value c) = c"
    by (simp_all add: digit_char_digit_value)
  show ?case
  proof (cases "u = []")
    case True
    with c10 cc show ?thesis
      by (subst nat_to_string.simps) (simp add: digits_value_def)
  next
    case False
    with snoc.prems(3) have hd: "hd u \<noteq> CHR ''0''" by (cases u) auto
    with snoc.IH False u have ih: "nat_to_string (digits_value u) = u" by simp
    have "digits_value u \<noteq> 0"
    proof
      assume "digits_value u = 0"
      with ih have "u = ''0''" by (simp add: nat_to_string_zero)
      with hd show False by simp
    qed
    then have big: "\<not> 10 * digits_value u + digit_value c < 10" by simp
    have "nat_to_string (10 * digits_value u + digit_value c)
            = nat_to_string ((10 * digits_value u + digit_value c) div 10)
              @ [digit_char ((10 * digits_value u + digit_value c) mod 10)]"
      using big by (subst nat_to_string.simps) simp
    also have "(10 * digits_value u + digit_value c) div 10 = digits_value u"
      using c10 by simp
    also have "(10 * digits_value u + digit_value c) mod 10 = digit_value c"
      using c10 by simp
    finally show ?thesis by (simp add: digits_value_snoc ih cc)
  qed
qed

lemma nat_numeral_unique: "nat_numeral n w \<Longrightarrow> w = nat_to_string n"
  unfolding nat_numeral_def using nat_to_string_digits_value [of w] by auto

lemma numeral_of_Number_toString: "numeral_of i (Number_toString i)"
  by (simp add: numeral_of_def Number_toString_def nat_numeral_nat_to_string)

lemma numeral_of_unique: "numeral_of i w \<Longrightarrow> w = Number_toString i"
proof (cases "i < 0")
  case True
  assume "numeral_of i w"
  with True have "w \<noteq> []" and "hd w = CHR ''-''" and "tl w = nat_to_string (nat (- i))"
    by (simp_all add: numeral_of_def nat_numeral_unique)
  then have "w = CHR ''-'' # nat_to_string (nat (- i))" by (cases w) simp_all
  with True show ?thesis by (simp add: Number_toString_def)
next
  case False
  assume "numeral_of i w"
  with False show ?thesis by (simp add: numeral_of_def Number_toString_def nat_numeral_unique)
qed

lemma decimal_eq [code]: "decimal i = Number_toString i"
  unfolding decimal_def
  by (rule the_equality) (simp_all add: numeral_of_Number_toString numeral_of_unique)

lemma numeral_of_decimal: "numeral_of i w \<longleftrightarrow> w = decimal i"
  using numeral_of_Number_toString [of i] numeral_of_unique [of i w] by (auto simp add: decimal_eq)

text \<open>The tokens that the serializer pushes, converted to strings, are the words of the line.\<close>


lemma foldl_push: "foldl (\<lambda>acc x. acc @ f x) acc xs = acc @ concat (map f xs)"
  by (induction xs arbitrary: acc) simp_all

lemma foldl_push_if:
  "foldl (\<lambda>acc x. if P x then acc @ f x else acc) acc xs
     = acc @ concat (map (\<lambda>x. if P x then f x else []) xs)"
proof -
  have "(\<lambda>acc x. if P x then acc @ f x else acc) = (\<lambda>acc x. acc @ (if P x then f x else []))"
    by (intro ext) simp
  then show ?thesis by (simp only: foldl_push)
qed

lemma push_walls_eq:
  assumes "\<forall>row \<in> set g. length row = cs"
  shows "push_walls g (length g) cs tokens
     = tokens @ concat (map (\<lambda>y. concat (map (\<lambda>x. if g ! y ! x = 0
                                  then [Str ''wall'', Num (int x), Num (int y)] else [])
                                  [0..<cs])) [0..<length g])"
proof -
  have inner: "foldl (\<lambda>tokens x. if row_read (g ! y) x = Some 0
                 then tokens @ [Str ''wall'', Num (int x), Num (int y)] else tokens) acc [0..<cs]
        = acc @ concat (map (\<lambda>x. if g ! y ! x = 0
                                  then [Str ''wall'', Num (int x), Num (int y)] else []) [0..<cs])"
    if "y < length g" for y acc
  proof -
    from that assms have len: "length (g ! y) = cs" by simp
    have "map (\<lambda>x. if row_read (g ! y) x = Some 0
                     then [Str ''wall'', Num (int x), Num (int y)] else []) [0..<cs]
          = map (\<lambda>x. if g ! y ! x = 0
                     then [Str ''wall'', Num (int x), Num (int y)] else []) [0..<cs]"
      by (rule map_cong [OF refl]) (simp add: row_read_def len)
    then show ?thesis by (simp only: foldl_push_if)
  qed
  have outer: "foldl (\<lambda>tokens y. foldl (\<lambda>tokens x. if row_read (g ! y) x = Some 0
                 then tokens @ [Str ''wall'', Num (int x), Num (int y)] else tokens) tokens [0..<cs])
                 acc ys
        = acc @ concat (map (\<lambda>y. concat (map (\<lambda>x. if g ! y ! x = 0
                                  then [Str ''wall'', Num (int x), Num (int y)] else [])
                                  [0..<cs])) ys)"
    if "\<forall>y \<in> set ys. y < length g" for ys acc
    using that by (induction ys arbitrary: acc) (simp_all add: inner)
  show ?thesis
    unfolding push_walls_def by (rule outer) simp
qed


lemma foldl_push_pair:
  "foldl (\<lambda>acc (x, y). acc @ f x y) acc ps = acc @ concat (map (\<lambda>(x, y). f x y) ps)"
proof -
  have "(\<lambda>acc (x, y). acc @ f x y) = (\<lambda>acc p. acc @ (case p of (x, y) \<Rightarrow> f x y))"
    by (intro ext) (simp split: prod.split)
  then show ?thesis by (simp only: foldl_push)
qed

lemma concat_wall_cells:
  "concat (map (\<lambda>(x, y). F x y)
     (concat (map (\<lambda>y. concat (map (\<lambda>x. if P y x then [(x, y)] else []) xs)) ys)))
   = concat (map (\<lambda>y. concat (map (\<lambda>x. if P y x then F x y else []) xs)) ys)"
proof (induction ys)
  case Nil
  show ?case by simp
next
  case (Cons y ys)
  have "concat (map (\<lambda>(x, y). F x y) (concat (map (\<lambda>x. if P y x then [(x, y)] else []) xs)))
        = concat (map (\<lambda>x. if P y x then F x y else []) xs)"
    by (induction xs) simp_all
  with Cons show ?case by simp
qed

lemma map_token_string_concat:
  "map token_string (concat xss) = concat (map (map token_string) xss)"
  by (simp add: map_concat)

lemma event_items_words:
  "event_cost e \<noteq> \<infinity> \<Longrightarrow> map token_string (event_items e) = event_words e"
  by (cases e) (auto simp add: token_string_def cost_string_def decimal_eq Number_toString_def)

lemma trace_words:
  assumes "\<forall>e \<in> set trace. event_cost e \<noteq> \<infinity>"
  shows "map token_string (concat (map event_items trace)) = concat (map event_words trace)"
  using assms by (induction trace) (simp_all add: event_items_words)

lemma wall_words_row:
  "map token_string
     (concat (map (\<lambda>x. if P x then [Str ''wall'', Num (int x), Num (int y)] else []) xs))
   = concat (map (\<lambda>x. if P x then [''wall'', decimal (int x), decimal (int y)] else []) xs)"
  by (induction xs) (simp_all add: token_string_def decimal_eq)

lemma wall_words:
  "map token_string
     (concat (map (\<lambda>y. concat (map (\<lambda>x. if P y x
                                  then [Str ''wall'', Num (int x), Num (int y)] else []) xs)) ys))
   = concat (map (\<lambda>y. concat (map (\<lambda>x. if P y x
                                  then [''wall'', decimal (int x), decimal (int y)] else []) xs)) ys)"
  by (induction ys) (simp_all add: wall_words_row)

lemma plan_words:
  "map token_string (concat (map (\<lambda>(x, y). [Str ''plan'', Num x, Num y]) plan))
   = concat (map (\<lambda>(x, y). [''plan'', decimal x, decimal y]) plan)"
  by (induction plan) (auto simp add: token_string_def decimal_eq)

lemma serializeExample_nonempty:
  assumes "grid spec \<noteq> []"
  shows "serializeExample spec solution =
     Inr (JSON_stringify_text (join '' '' (map token_string
       (foldl (\<lambda>tokens (x, y). tokens @ [Str ''plan'', Num x, Num y])
          (foldl (\<lambda>tokens ev. tokens @ event_items ev)
             (push_walls (grid spec) (length (grid spec)) (length (hd (grid spec)))
                [Str ''query'', Str ''start'', Num (startX spec), Num (startY spec),
                 Str ''goal'', Num (goalX spec), Num (goalY spec)]
              @ [Str ''reasoning'']) (fst solution)
           @ [Str ''solution'']) (snd solution)
        @ [Str ''end'']))) @ [CHR 0x0A])"
  using assms by (cases "grid spec") (simp_all add: serializeExample_def Let_def)

lemma serializeExample_words:
  assumes "rectangular (grid spec)" and "\<forall>e \<in> set trace. event_cost e \<noteq> \<infinity>"
  shows "serializeExample spec (trace, plan)
     = Inr (JSON_stringify_text (join '' '' (line_words spec trace plan)) @ [CHR 0x0A])"
proof -
  from assms(1) have ne: "grid spec \<noteq> []"
    and rows: "\<forall>row \<in> set (grid spec). length row = length (hd (grid spec))"
    unfolding rectangular_def by blast+
  have walls: "map token_string
       (concat (map (\<lambda>y. concat (map (\<lambda>x. if grid spec ! y ! x = 0
                                  then [Str ''wall'', Num (int x), Num (int y)] else [])
                                  [0..<length (hd (grid spec))])) [0..<length (grid spec)]))
     = concat (map (\<lambda>(x, y). [''wall'', decimal (int x), decimal (int y)]) (wall_cells (grid spec)))"
    unfolding wall_cells_def
    by (subst concat_wall_cells [where F = "\<lambda>x y. [''wall'', decimal (int x), decimal (int y)]"
          and P = "\<lambda>y x. grid spec ! y ! x = 0"]) (rule wall_words)
  have first: "map token_string
          [Str ''query'', Str ''start'', Num (startX spec), Num (startY spec),
           Str ''goal'', Num (goalX spec), Num (goalY spec)]
        = [''query'', ''start'', decimal (startX spec), decimal (startY spec),
           ''goal'', decimal (goalX spec), decimal (goalY spec)]"
    and others: "map token_string [Str ''reasoning''] = [''reasoning'']"
      "map token_string [Str ''solution''] = [''solution'']"
      "map token_string [Str ''end''] = [''end'']"
    by (simp_all add: token_string_def decimal_eq)
  have 1: "serializeExample spec (trace, plan) =
     Inr (JSON_stringify_text (join '' '' (map token_string
       (foldl (\<lambda>tokens (x, y). tokens @ [Str ''plan'', Num x, Num y])
          (foldl (\<lambda>tokens ev. tokens @ event_items ev)
             (push_walls (grid spec) (length (grid spec)) (length (hd (grid spec)))
                [Str ''query'', Str ''start'', Num (startX spec), Num (startY spec),
                 Str ''goal'', Num (goalX spec), Num (goalY spec)]
              @ [Str ''reasoning'']) trace
           @ [Str ''solution'']) plan
        @ [Str ''end'']))) @ [CHR 0x0A])"
    by (simp only: serializeExample_nonempty [OF ne] fst_conv snd_conv)
  have 2: "foldl (\<lambda>tokens (x, y). tokens @ [Str ''plan'', Num x, Num y])
          (foldl (\<lambda>tokens ev. tokens @ event_items ev)
             (push_walls (grid spec) (length (grid spec)) (length (hd (grid spec)))
                [Str ''query'', Str ''start'', Num (startX spec), Num (startY spec),
                 Str ''goal'', Num (goalX spec), Num (goalY spec)]
              @ [Str ''reasoning'']) trace
           @ [Str ''solution'']) plan
        @ [Str ''end'']
      = [Str ''query'', Str ''start'', Num (startX spec), Num (startY spec),
            Str ''goal'', Num (goalX spec), Num (goalY spec)]
           @ concat (map (\<lambda>y. concat (map (\<lambda>x. if grid spec ! y ! x = 0
                                  then [Str ''wall'', Num (int x), Num (int y)] else [])
                                  [0..<length (hd (grid spec))])) [0..<length (grid spec)])
           @ [Str ''reasoning''] @ concat (map event_items trace)
           @ [Str ''solution''] @ concat (map (\<lambda>(x, y). [Str ''plan'', Num x, Num y]) plan)
           @ [Str ''end'']"
    by (simp only: push_walls_eq [OF rows] foldl_push
          foldl_push_pair [where f = "\<lambda>x y. [Str ''plan'', Num x, Num y]"] append_assoc)
  show ?thesis
    unfolding 1 2 line_words_def
    by (simp only: map_append walls plan_words trace_words [OF assms(2)] first others)
qed


text \<open>No character of the line needs an escape.\<close>

lemma plain_append [simp]: "plain (u @ v) = (plain u \<and> plain v)"
  by (auto simp add: plain_def)

lemma plain_Cons: "plain (c # w) = (QuoteJSONChar c = [c] \<and> plain w)"
  by (simp add: plain_def)

lemma plain_Nil [simp]: "plain []"
  by (simp add: plain_def)

lemma QuoteJSONString_plain: "plain w \<Longrightarrow> QuoteJSONString w = CHR 0x22 # w @ [CHR 0x22]"
proof -
  assume "plain w"
  then have "concat (map QuoteJSONChar w) = w"
    by (induction w) (simp_all add: plain_Cons)
  then show ?thesis by (simp add: QuoteJSONString_def)
qed

lemma plain_digit: "d < 10 \<Longrightarrow> QuoteJSONChar (digit_char d) = [digit_char d]"
  by (simp add: QuoteJSONChar_def of_char_digit Let_def)

lemma plain_nat_to_string: "plain (nat_to_string n)"
proof (induction n rule: nat_to_string.induct)
  case (1 n)
  show ?case
  proof (cases "n < 10")
    case True
    then show ?thesis
      by (subst nat_to_string.simps) (simp add: plain_Cons plain_digit)
  next
    case False
    with 1 show ?thesis
      by (subst nat_to_string.simps) (simp add: plain_Cons plain_digit)
  qed
qed

lemma plain_decimal: "plain (decimal i)"
  by (simp add: decimal_eq Number_toString_def plain_Cons plain_nat_to_string QuoteJSONChar_def)

lemma plain_join:
  assumes "\<forall>w \<in> set ws. plain w"
  shows "plain (join '' '' ws)"
  using assms
proof (induction "'' ''" ws rule: join.induct)
  case 1
  show ?case by simp
next
  case (2 w)
  then show ?case by simp
next
  case (3 w v va)
  then show ?case by (simp add: plain_Cons QuoteJSONChar_def)
qed

lemma plain_event_words: "\<forall>w \<in> set (event_words e). plain w"
  by (cases e) (simp_all add: plain_Cons plain_decimal QuoteJSONChar_def)

lemma plain_line_words: "\<forall>w \<in> set (line_words spec trace plan). plain w"
  by (auto simp add: line_words_def plain_Cons plain_decimal QuoteJSONChar_def
        dest: plain_event_words [rule_format])

text \<open>
  Claim C8: for a maze spec whose grid is a non-empty rectangle and a solver output, all of
  whose numbers are integers below \<open>2^53\<close> in magnitude, \<^verbatim>\<open>serializeExample\<close> returns
  \<^verbatim>\<open>JSON.stringify({text: T})\<close> followed by one newline, where \<open>T\<close> joins with single
  spaces the words \<open>query\<close>, \<open>start\<close>, \<open>startX\<close>, \<open>startY\<close>, \<open>goal\<close>, \<open>goalX\<close>,
  \<open>goalY\<close>, then \<open>wall x y\<close> for every wall cell in row-major order, then \<open>reasoning\<close>
  and the events in order, then \<open>solution\<close> and \<open>plan x y\<close> for every plan cell, then
  \<open>end\<close>. No character of \<open>T\<close> is escaped, so the line is \<open>{"text":"T"}\<close> and a
  newline. Every number is written as its decimal numeral, which is the only string of
  digits without a leading zero (after a minus sign for a negative number) that denotes it;
  a cost is written as \<open>c\<close> followed by the numeral.
\<close>

theorem C8_serializeExample:
  assumes "rectangular (grid spec)" and "safe_numbers spec trace plan"
  shows "serializeExample spec (trace, plan)
           = Inr (JSON_stringify_text (join '' '' (line_words spec trace plan)) @ [CHR 0x0A])
       \<and> JSON_stringify_text (join '' '' (line_words spec trace plan))
           = [CHR ''{'', CHR 0x22] @ ''text'' @ [CHR 0x22, CHR '':'', CHR 0x22]
             @ join '' '' (line_words spec trace plan) @ [CHR 0x22, CHR ''}'']
       \<and> (\<forall>i w. numeral_of i w \<longleftrightarrow> w = decimal i)"
proof -
  have "event_cost e \<noteq> \<infinity>" if "safe_event e" for e
    using that by (cases e) (auto split: enat.splits)
  with assms(2) have costs: "\<forall>e \<in> set trace. event_cost e \<noteq> \<infinity>"
    by (simp add: safe_numbers_def list_all_iff)
  have "plain (join '' '' (line_words spec trace plan))"
    by (rule plain_join) (rule plain_line_words)
  then have "JSON_stringify_text (join '' '' (line_words spec trace plan))
           = [CHR ''{'', CHR 0x22] @ ''text'' @ [CHR 0x22, CHR '':'', CHR 0x22]
             @ join '' '' (line_words spec trace plan) @ [CHR 0x22, CHR ''}'']"
    by (simp add: JSON_stringify_text_def QuoteJSONString_plain)
  then show ?thesis
    using serializeExample_words [OF assms(1) costs] numeral_of_decimal by blast
qed

lemma line_words_2_2:
  "join '' '' (line_words \<lparr> grid = [[1, 1], [0, 1]], startX = 0, startY = 0, goalX = 1, goalY = 1 \<rparr>
       [Close 0 0 0 2, Create 1 0 1 1, Close 1 0 1 1, Create 1 1 2 0, Close 1 1 2 0]
       [(0, 0), (1, 0), (1, 1)])
   = ''query start 0 0 goal 1 1 wall 0 1 reasoning close 0 0 c0 c2 create 1 0 c1 c1 close 1 0 c1 c1 create 1 1 c2 c0 close 1 1 c2 c0 solution plan 0 0 plan 1 0 plan 1 1 end''"
  by code_simp

theorem C8_serializeExample_witness:
  "rectangular [[1, 1], [0, 1]]
   \<and> safe_numbers \<lparr> grid = [[1, 1], [0, 1]], startX = 0, startY = 0, goalX = 1, goalY = 1 \<rparr>
        [Close 0 0 0 2, Create 1 0 1 1, Close 1 0 1 1, Create 1 1 2 0, Close 1 1 2 0]
        [(0, 0), (1, 0), (1, 1)]
   \<and> serializeExample \<lparr> grid = [[1, 1], [0, 1]], startX = 0, startY = 0, goalX = 1, goalY = 1 \<rparr>
        ([Close 0 0 0 2, Create 1 0 1 1, Close 1 0 1 1, Create 1 1 2 0, Close 1 1 2 0],
         [(0, 0), (1, 0), (1, 1)])
       = Inr ([CHR ''{'', CHR 0x22] @ ''text'' @ [CHR 0x22, CHR '':'', CHR 0x22]
              @ ''query start 0 0 goal 1 1 wall 0 1 reasoning close 0 0 c0 c2 create 1 0 c1 c1 close 1 0 c1 c1 create 1 1 c2 c0 close 1 1 c2 c0 solution plan 0 0 plan 1 0 plan 1 1 end''
              @ [CHR 0x22, CHR ''}'', CHR 0x0A])
   \<and> decimal 37 = ''37'' \<and> decimal (- 5) = ''-5''
   \<and> numeral_of 120 ''120'' \<and> \<not> numeral_of 7 ''07'' \<and> \<not> numeral_of 10 '':''"
proof -
  let ?spec = "\<lparr> grid = [[1, 1], [0, 1]], startX = 0, startY = 0, goalX = 1, goalY = 1 \<rparr>"
  let ?trace = "[Close 0 0 0 2, Create 1 0 1 1, Close 1 0 1 1, Create 1 1 2 0, Close 1 1 2 0]"
  let ?plan = "[(0, 0), (1, 0), (1, 1)] :: cell list"
  have r: "rectangular (grid ?spec)"
    by (simp add: rectangular_def)
  have r': "rectangular [[1, 1], [0, 1]]"
    by (simp add: rectangular_def)
  have c: "safe_numbers ?spec ?trace ?plan"
    by (simp add: safe_numbers_def safe_integer_def zero_enat_def one_enat_def numeral_eq_enat)
  note inst = C8_serializeExample [OF r c]
  from inst have
    "serializeExample ?spec (?trace, ?plan)
       = Inr (([CHR ''{'', CHR 0x22] @ ''text'' @ [CHR 0x22, CHR '':'', CHR 0x22]
              @ join '' '' (line_words ?spec ?trace ?plan)
              @ [CHR 0x22, CHR ''}'']) @ [CHR 0x0A])"
    by (elim conjE) (simp only:)
  then have s:
    "serializeExample ?spec (?trace, ?plan)
       = Inr ([CHR ''{'', CHR 0x22] @ ''text'' @ [CHR 0x22, CHR '':'', CHR 0x22]
              @ ''query start 0 0 goal 1 1 wall 0 1 reasoning close 0 0 c0 c2 create 1 0 c1 c1 close 1 0 c1 c1 create 1 1 c2 c0 close 1 1 c2 c0 solution plan 0 0 plan 1 0 plan 1 1 end''
              @ [CHR 0x22, CHR ''}'', CHR 0x0A])"
    by (simp only: line_words_2_2 append_assoc append.simps)
  from inst have n: "\<And>i w. numeral_of i w \<longleftrightarrow> w = decimal i" by blast
  have d1: "decimal 37 = ''37''" by code_simp
  have d2: "decimal (- 5) = ''-5''" by code_simp
  have d3: "decimal 120 = ''120''" by code_simp
  have d4: "decimal 7 = ''7''" by code_simp
  have d5: "decimal 10 = ''10''" by code_simp
  have n1: "numeral_of 120 ''120''" by (simp only: n d3)
  have n2: "\<not> numeral_of 7 ''07''" by (simp add: n d4)
  have n3: "\<not> numeral_of 10 '':''" by (simp add: n d5)
  from r' c s d1 d2 n1 n2 n3 show ?thesis by (intro conjI)
qed

section \<open>Correctness of the A* search\<close>

subsection \<open>Removing the entry with the lowest score\<close>

lemma scan_lowest_sound:
  assumes "os = pre @ cs" and "length pre = i" and "li < i" and "lF = fS (os ! li)"
    and "\<forall>x \<in> set pre. lF \<le> fS x"
  shows "scan_lowest fS cs i li lF < length os
       \<and> (\<forall>x \<in> set os. fS (os ! scan_lowest fS cs i li lF) \<le> fS x)"
  using assms
proof (induction cs arbitrary: pre i li lF)
  case Nil
  then show ?case by simp
next
  case (Cons c cs)
  have os: "os = (pre @ [c]) @ cs" and len: "length (pre @ [c]) = Suc i"
    using Cons.prems by simp_all
  have c: "os ! i = c" using Cons.prems by (simp add: nth_append)
  show ?case
  proof (cases "fS c < lF")
    case True
    have "\<forall>x \<in> set (pre @ [c]). fS c \<le> fS x"
      using True Cons.prems(5) by (auto intro: less_imp_le order_trans)
    from Cons.IH [OF os len _ _ this, of i] c True show ?thesis by simp
  next
    case False
    have "\<forall>x \<in> set (pre @ [c]). lF \<le> fS x"
      using False Cons.prems(5) by auto
    from Cons.IH [OF os len _ Cons.prems(4) this] Cons.prems(3) False show ?thesis by simp
  qed
qed

lemma extractLowestFScore_sound:
  assumes "os \<noteq> []" and "distinct os"
  shows "fst (extractLowestFScore os fS) \<in> set os
       \<and> (\<forall>x \<in> set os. fS (fst (extractLowestFScore os fS)) \<le> fS x)
       \<and> set (snd (extractLowestFScore os fS)) = set os - {fst (extractLowestFScore os fS)}
       \<and> distinct (snd (extractLowestFScore os fS))"
proof -
  from assms(1) obtain c cs where os: "os = c # cs" by (cases os) auto
  define k where "k = scan_lowest fS cs 1 0 (fS c)"
  have "k < length os \<and> (\<forall>x \<in> set os. fS (os ! k) \<le> fS x)"
    unfolding k_def
    by (rule scan_lowest_sound [where pre = "[c]"]) (simp_all add: os)
  then have k: "k < length os" and low: "\<forall>x \<in> set os. fS (os ! k) \<le> fS x" by simp_all
  have e: "extractLowestFScore os fS = (os ! k, take k os @ drop (Suc k) os)"
    by (simp add: extractLowestFScore_def k_def os Let_def)
  have split: "os = take k os @ os ! k # drop (Suc k) os"
    using k by (simp add: id_take_nth_drop)
  have d: "distinct (take k os @ os ! k # drop (Suc k) os)"
    using assms(2) split by simp
  have "set os = set (take k os @ os ! k # drop (Suc k) os)"
    using split by simp
  with d have "set (take k os @ drop (Suc k) os) = set os - {os ! k}"
    by auto
  moreover from d have "distinct (take k os @ drop (Suc k) os)" by simp
  ultimately show ?thesis using e k low by simp
qed

lemma pop_lowest_fields:
  "closedSet (snd (pop_lowest ctx s)) = closedSet s"
  "gScore (snd (pop_lowest ctx s)) = gScore s"
  "fScore (snd (pop_lowest ctx s)) = fScore s"
  "cameFrom (snd (pop_lowest ctx s)) = cameFrom s"
  "reasoning (snd (pop_lowest ctx s)) = reasoning s @
     [Close (fst (fst (pop_lowest ctx s))) (snd (fst (pop_lowest ctx s)))
        (gScore s (fst (pop_lowest ctx s))) (h_cost ctx (fst (pop_lowest ctx s)))]"
  "fst (pop_lowest ctx s) = fst (extractLowestFScore (openSet s) (fScore s))"
  "openSet (snd (pop_lowest ctx s)) = snd (extractLowestFScore (openSet s) (fScore s))"
  by (simp_all add: pop_lowest_def h_cost_def split: prod.splits)

lemma pop_lowest_sound:
  assumes "openSet s \<noteq> []" and "distinct (openSet s)"
  shows "fst (pop_lowest ctx s) \<in> set (openSet s)"
    and "\<forall>x \<in> set (openSet s). fScore s (fst (pop_lowest ctx s)) \<le> fScore s x"
    and "set (openSet (snd (pop_lowest ctx s))) = set (openSet s) - {fst (pop_lowest ctx s)}"
    and "distinct (openSet (snd (pop_lowest ctx s)))"
  using extractLowestFScore_sound [OF assms, of "fScore s"]
  by (simp_all add: pop_lowest_fields(6,7))

subsection \<open>One direction of the neighbour loop\<close>

lemma relax_cases:
  obtains
    (same) "relax ctx cur s d = s"
      and "\<not> (passage ctx (neighbour cur d) \<and> \<not> closedSet s (neighbour cur d)
               \<and> gScore s cur + 1 < gScore s (neighbour cur d))"
  | (better) "passage ctx (neighbour cur d)" and "\<not> closedSet s (neighbour cur d)"
      and "gScore s cur + 1 < gScore s (neighbour cur d)"
      and "relax ctx cur s d =
        s\<lparr> cameFrom := (cameFrom s)(neighbour cur d := Some cur),
           gScore := (gScore s)(neighbour cur d := gScore s cur + 1),
           fScore := (fScore s)(neighbour cur d :=
             gScore s cur + 1 + enat (h_cost ctx (neighbour cur d))),
           reasoning := reasoning s @
             [Create (fst (neighbour cur d)) (snd (neighbour cur d)) (gScore s cur + 1)
                (h_cost ctx (neighbour cur d))],
           openSet := (if neighbour cur d \<in> set (openSet s) then openSet s
                       else openSet s @ [neighbour cur d]) \<rparr>"
proof (cases "passage ctx (neighbour cur d) \<and> \<not> closedSet s (neighbour cur d)
               \<and> gScore s cur + 1 < gScore s (neighbour cur d)")
  case True
  then show ?thesis
    by (intro better)
       (auto simp add: relax_def passage_def in_bounds_def neighbour_def h_cost_def Let_def)
next
  case False
  then have "relax ctx cur s d = s"
    by (auto simp add: relax_def passage_def in_bounds_def neighbour_def h_cost_def Let_def)
  with False show ?thesis by (rule same [rotated])
qed

lemma relax_closedSet: "closedSet (relax ctx cur s d) = closedSet s"
  by (cases rule: relax_cases [of ctx cur s d]) simp_all

lemma relax_gScore_le: "gScore (relax ctx cur s d) c \<le> gScore s c"
  by (cases rule: relax_cases [of ctx cur s d]) (auto simp add: less_imp_le)

lemma relax_gScore_closed: "closedSet s c \<Longrightarrow> gScore (relax ctx cur s d) c = gScore s c"
  by (cases rule: relax_cases [of ctx cur s d]) auto

lemma relax_gScore_neighbour:
  "passage ctx (neighbour cur d) \<Longrightarrow> \<not> closedSet s (neighbour cur d)
   \<Longrightarrow> gScore (relax ctx cur s d) (neighbour cur d) \<le> gScore s cur + 1"
  by (cases rule: relax_cases [of ctx cur s d]) auto

lemma foldl_relax_closedSet: "closedSet (foldl (relax ctx cur) s ds) = closedSet s"
  by (induction ds arbitrary: s) (simp_all add: relax_closedSet)

lemma foldl_relax_gScore_le: "gScore (foldl (relax ctx cur) s ds) c \<le> gScore s c"
proof (induction ds arbitrary: s)
  case Nil
  show ?case by simp
next
  case (Cons d ds)
  have "gScore (foldl (relax ctx cur) (relax ctx cur s d) ds) c \<le> gScore (relax ctx cur s d) c"
    by (rule Cons.IH)
  also have "\<dots> \<le> gScore s c" by (rule relax_gScore_le)
  finally show ?case by simp
qed

lemma foldl_relax_gScore_closed:
  "closedSet s c \<Longrightarrow> gScore (foldl (relax ctx cur) s ds) c = gScore s c"
  by (induction ds arbitrary: s) (simp_all add: relax_closedSet relax_gScore_closed)

lemma foldl_relax_gScore_neighbour:
  assumes "closedSet s cur" and "d \<in> set ds" and "passage ctx (neighbour cur d)"
    and "\<not> closedSet s (neighbour cur d)"
  shows "gScore (foldl (relax ctx cur) s ds) (neighbour cur d) \<le> gScore s cur + 1"
  using assms
proof (induction ds arbitrary: s)
  case Nil
  then show ?case by simp
next
  case (Cons e ds)
  show ?case
  proof (cases "d = e")
    case True
    have "gScore (foldl (relax ctx cur) (relax ctx cur s e) ds) (neighbour cur d)
            \<le> gScore (relax ctx cur s e) (neighbour cur d)"
      by (rule foldl_relax_gScore_le)
    also have "\<dots> \<le> gScore s cur + 1"
      using Cons.prems True by (simp add: relax_gScore_neighbour)
    finally show ?thesis by simp
  next
    case False
    with Cons.prems have "d \<in> set ds" by simp
    from Cons.IH [of "relax ctx cur s e", OF _ this] Cons.prems
    show ?thesis by (simp add: relax_closedSet relax_gScore_closed)
  qed
qed

subsection \<open>Paths and the heuristic\<close>

lemma adjacent_neighbour: "adjacent c c' \<longleftrightarrow> (\<exists>d \<in> set DIRS. c' = neighbour c d)"
  by (cases c; cases c') (auto simp add: adjacent_def neighbour_def DIRS_def)

lemma manhattan_consistent:
  assumes "heuristic ctx = manhattan" and "d \<in> set DIRS"
  shows "h_cost ctx c \<le> Suc (h_cost ctx (neighbour c d))"
  using assms by (auto simp add: h_cost_def manhattan_def neighbour_def DIRS_def)

lemma passage_path_hd: "passage_path ctx (c # cs) \<Longrightarrow> passage ctx c"
  by (cases cs) simp_all

lemma passage_path_reach:
  "reach ctx n c \<Longrightarrow> passage_path ctx (c # cs) \<Longrightarrow> reach ctx (n + length cs) (last (c # cs))"
proof (induction cs arbitrary: n c)
  case Nil
  then show ?case by simp
next
  case (Cons c' cs)
  from Cons.prems(2) have adj: "adjacent c c'" and rest: "passage_path ctx (c' # cs)" by simp_all
  from adj obtain d where d: "d \<in> set DIRS" "c' = neighbour c d"
    by (auto simp add: adjacent_neighbour)
  from rest have "passage ctx c'" by (rule passage_path_hd)
  with Cons.prems(1) d have "reach ctx (Suc n) c'" by (auto intro: reach_step)
  from Cons.IH [OF this rest] show ?case by simp
qed

lemma passage_path_snoc:
  "passage_path ctx xs \<Longrightarrow> adjacent (last xs) c \<Longrightarrow> passage ctx c \<Longrightarrow> passage_path ctx (xs @ [c])"
  by (induction ctx xs rule: passage_path.induct) simp_all

lemma close_values_append:
  "close_values (es @ es') = close_values es @ close_values es'"
  by (simp add: close_values_def close_events_def)

subsection \<open>The invariant of the search loop\<close>

lemma finite_in_bounds: "finite {c. in_bounds ctx c}"
proof -
  have "{c. in_bounds ctx c} \<subseteq> {0..<int (cols ctx)} \<times> {0..<int (rows ctx)}"
    by (auto simp add: in_bounds_def)
  then show ?thesis by (rule finite_subset) simp
qed

lemma inv_open_finite:
  assumes "inv_open ctx s" and "c \<in> set (openSet s) \<or> closedSet s c"
  obtains k where "gScore s c = enat k"
proof -
  from assms have "gScore s c \<noteq> \<infinity>" unfolding inv_open_def by blast
  then show thesis using that by (cases "gScore s c") auto
qed

lemma inv_open_fScore:
  assumes "inv_open ctx s" and "c \<in> set (openSet s)"
  shows "fScore s c = gScore s c + enat (h_cost ctx c)"
  using assms unfolding inv_open_def by blast

lemma open_bound:
  assumes h: "heuristic ctx = manhattan" and io: "inv_open ctx s" and iopt: "inv_opt ctx None s"
  shows "reach ctx n c \<Longrightarrow> \<not> closedSet s c
     \<Longrightarrow> \<exists>x \<in> set (openSet s). gScore s x + enat (h_cost ctx x) \<le> enat (n + h_cost ctx c)"
proof (induction rule: reach.induct)
  case reach_start
  have g: "gScore s (start_cell ctx) = 0" using io by (simp add: inv_open_def)
  then have "gScore s (start_cell ctx) \<noteq> \<infinity>" by simp
  with io reach_start have "start_cell ctx \<in> set (openSet s)"
    unfolding inv_open_def by blast
  moreover have "gScore s (start_cell ctx) + enat (h_cost ctx (start_cell ctx))
                   \<le> enat (0 + h_cost ctx (start_cell ctx))"
    using g by simp
  ultimately show ?case by blast
next
  case (reach_step n c d)
  let ?n = "neighbour c d"
  have hc: "h_cost ctx c \<le> Suc (h_cost ctx ?n)"
    using h reach_step.hyps(2) by (rule manhattan_consistent)
  show ?case
  proof (cases "closedSet s c")
    case True
    with iopt reach_step.hyps(1) have "gScore s c \<le> enat n"
      unfolding inv_opt_def by blast
    moreover from iopt True reach_step.hyps(2,3) reach_step.prems
    have "gScore s ?n \<le> gScore s c + 1"
      unfolding inv_opt_def by blast
    ultimately have "gScore s ?n \<le> enat n + 1"
      by (meson add_right_mono order_trans)
    then have le: "gScore s ?n \<le> enat (Suc n)" by (simp add: one_enat_def)
    then have "gScore s ?n \<noteq> \<infinity>" by (cases "gScore s ?n") simp_all
    with io reach_step.prems have "?n \<in> set (openSet s)"
      unfolding inv_open_def by blast
    moreover from le have "gScore s ?n + enat (h_cost ctx ?n) \<le> enat (Suc n) + enat (h_cost ctx ?n)"
      by (rule add_right_mono)
    then have "gScore s ?n + enat (h_cost ctx ?n) \<le> enat (Suc n + h_cost ctx ?n)" by simp
    ultimately show ?thesis by blast
  next
    case False
    from reach_step.IH [OF False] obtain x where x: "x \<in> set (openSet s)"
      and le: "gScore s x + enat (h_cost ctx x) \<le> enat (n + h_cost ctx c)" by blast
    have "enat (n + h_cost ctx c) \<le> enat (Suc n + h_cost ctx ?n)"
      using hc by simp
    with le have "gScore s x + enat (h_cost ctx x) \<le> enat (Suc n + h_cost ctx ?n)"
      by (rule order_trans)
    with x show ?thesis by blast
  qed
qed

lemma pop_optimal:
  assumes h: "heuristic ctx = manhattan" and io: "inv_open ctx s" and iopt: "inv_opt ctx None s"
    and ne: "openSet s \<noteq> []" and r: "reach ctx n (fst (pop_lowest ctx s))"
  shows "gScore s (fst (pop_lowest ctx s)) \<le> enat n"
proof -
  let ?cur = "fst (pop_lowest ctx s)"
  have d: "distinct (openSet s)" using io by (simp add: inv_open_def)
  have cur: "?cur \<in> set (openSet s)" using ne d by (rule pop_lowest_sound)
  have low: "\<forall>x \<in> set (openSet s). fScore s ?cur \<le> fScore s x"
    using ne d by (rule pop_lowest_sound)
  from io cur have "\<not> closedSet s ?cur" unfolding inv_open_def by blast
  from open_bound [OF h io iopt r this] obtain x where x: "x \<in> set (openSet s)"
    and le: "gScore s x + enat (h_cost ctx x) \<le> enat (n + h_cost ctx ?cur)" by blast
  from low x have "fScore s ?cur \<le> fScore s x" by blast
  then have "gScore s ?cur + enat (h_cost ctx ?cur) \<le> gScore s x + enat (h_cost ctx x)"
    using io cur x by (simp add: inv_open_fScore)
  with le have le': "gScore s ?cur + enat (h_cost ctx ?cur) \<le> enat (n + h_cost ctx ?cur)"
    by (rule order_trans [rotated])
  from io cur obtain k where "gScore s ?cur = enat k" by (auto elim: inv_open_finite)
  with le' show ?thesis by simp
qed

lemma pop_trace:
  assumes io: "inv_open ctx s" and it: "inv_trace ctx None s" and ne: "openSet s \<noteq> []"
  shows "close_values (reasoning (snd (pop_lowest ctx s)))
           = close_values (reasoning s)
             @ [gScore s (fst (pop_lowest ctx s)) + enat (h_cost ctx (fst (pop_lowest ctx s)))]"
    and "sorted (close_values (reasoning (snd (pop_lowest ctx s))))"
    and "\<forall>v \<in> set (close_values (reasoning (snd (pop_lowest ctx s)))).
           (\<forall>c \<in> set (openSet s). v \<le> fScore s c)
           \<and> v \<le> gScore s (fst (pop_lowest ctx s)) + enat (h_cost ctx (fst (pop_lowest ctx s)))"
    and "\<exists>g h. hd (reasoning (snd (pop_lowest ctx s))) = Close (startX ctx) (startY ctx) g h"
    and "list_all (\<lambda>e. event_cost e \<noteq> \<infinity>) (reasoning (snd (pop_lowest ctx s)))"
proof -
  let ?cur = "fst (pop_lowest ctx s)"
  let ?v = "gScore s ?cur + enat (h_cost ctx ?cur)"
  have d: "distinct (openSet s)" using io by (simp add: inv_open_def)
  have cur: "?cur \<in> set (openSet s)" using ne d by (rule pop_lowest_sound)
  have low: "\<forall>x \<in> set (openSet s). fScore s ?cur \<le> fScore s x"
    using ne d by (rule pop_lowest_sound)
  have f: "fScore s ?cur = ?v" using io cur by (rule inv_open_fScore)
  show cv: "close_values (reasoning (snd (pop_lowest ctx s))) = close_values (reasoning s) @ [?v]"
    by (simp add: pop_lowest_fields close_values_append)
       (simp add: close_values_def close_events_def)
  have old: "\<forall>v \<in> set (close_values (reasoning s)). v \<le> ?v"
    using it cur f unfolding inv_trace_def by metis
  show "sorted (close_values (reasoning (snd (pop_lowest ctx s))))"
    using it old by (simp add: cv sorted_append inv_trace_def)
  show "\<forall>v \<in> set (close_values (reasoning (snd (pop_lowest ctx s)))).
           (\<forall>c \<in> set (openSet s). v \<le> fScore s c) \<and> v \<le> ?v"
    using it old low f unfolding inv_trace_def by (auto simp add: cv)
  show "\<exists>g h. hd (reasoning (snd (pop_lowest ctx s))) = Close (startX ctx) (startY ctx) g h"
  proof (cases "reasoning s = []")
    case True
    with it have "openSet s = [start_cell ctx]" by (simp add: inv_trace_def)
    with cur have "?cur = start_cell ctx" by simp
    then show ?thesis using True by (simp add: pop_lowest_fields start_cell_def)
  next
    case False
    with it show ?thesis by (simp add: pop_lowest_fields inv_trace_def)
  qed
  from io cur obtain k where "gScore s ?cur = enat k" by (auto elim: inv_open_finite)
  with it show "list_all (\<lambda>e. event_cost e \<noteq> \<infinity>) (reasoning (snd (pop_lowest ctx s)))"
    by (simp add: pop_lowest_fields inv_trace_def)
qed

lemma inv_opt_closed:
  "inv_opt ctx X s \<Longrightarrow> closedSet s c \<Longrightarrow> reach ctx n c \<Longrightarrow> gScore s c \<le> enat n"
  unfolding inv_opt_def by blast

lemma inv_opt_neighbour:
  "inv_opt ctx X s \<Longrightarrow> closedSet s c \<Longrightarrow> Some c \<noteq> X \<Longrightarrow> d \<in> set DIRS
   \<Longrightarrow> passage ctx (neighbour c d) \<Longrightarrow> \<not> closedSet s (neighbour c d)
   \<Longrightarrow> gScore s (neighbour c d) \<le> gScore s c + 1"
  unfolding inv_opt_def by blast

lemma inv_path_reach: "inv_path ctx s \<Longrightarrow> gScore s c = enat n \<Longrightarrow> reach ctx n c"
  unfolding inv_path_def by blast

lemma inv_path_cameFrom:
  assumes "inv_path ctx s" and "gScore s c = enat n" and "c \<noteq> start_cell ctx"
  obtains p d where "cameFrom s c = Some p" and "closedSet s p" and "gScore s p + 1 = enat n"
    and "d \<in> set DIRS" and "c = neighbour p d" and "passage ctx c"
  using assms unfolding inv_path_def by blast

subsection \<open>Closing the removed entry\<close>

lemma close_popped:
  assumes h: "heuristic ctx = manhattan" and inv: "astar_inv ctx None s"
    and ne: "openSet s \<noteq> []" and ng: "fst (pop_lowest ctx s) \<noteq> goal_cell ctx"
  shows "astar_inv ctx (Some (fst (pop_lowest ctx s)))
           ((snd (pop_lowest ctx s))\<lparr> closedSet :=
              (closedSet (snd (pop_lowest ctx s)))(fst (pop_lowest ctx s) := True) \<rparr>)"
proof -
  let ?cur = "fst (pop_lowest ctx s)"
  let ?p = "snd (pop_lowest ctx s)"
  let ?s1 = "?p\<lparr> closedSet := (closedSet ?p)(?cur := True) \<rparr>"
  from inv have io: "inv_open ctx s" and ip: "inv_path ctx s" and iopt: "inv_opt ctx None s"
    and it: "inv_trace ctx None s" by (simp_all add: astar_inv_def)
  have d: "distinct (openSet s)" using io by (simp add: inv_open_def)
  have cur: "?cur \<in> set (openSet s)" using ne d by (rule pop_lowest_sound)
  have rest: "set (openSet ?p) = set (openSet s) - {?cur}" using ne d by (rule pop_lowest_sound)
  have drest: "distinct (openSet ?p)" using ne d by (rule pop_lowest_sound)
  have f1: "openSet ?s1 = openSet ?p" "closedSet ?s1 = (closedSet s)(?cur := True)"
    "gScore ?s1 = gScore s" "fScore ?s1 = fScore s" "cameFrom ?s1 = cameFrom s"
    "reasoning ?s1 = reasoning ?p"
    by (simp_all add: pop_lowest_fields)
  have open1: "inv_open ctx ?s1"
    unfolding inv_open_def f1
    using io cur rest drest ng unfolding inv_open_def by auto
  have path1: "inv_path ctx ?s1"
    unfolding inv_path_def f1
  proof (intro conjI allI impI)
    fix c n
    assume "gScore s c = enat n"
    with ip show "reach ctx n c" by (rule inv_path_reach)
  next
    fix c n
    assume "gScore s c = enat n \<and> c \<noteq> start_cell ctx"
    with ip obtain p d where "cameFrom s c = Some p" "closedSet s p" "gScore s p + 1 = enat n"
      "d \<in> set DIRS" "c = neighbour p d" "passage ctx c"
      by (auto elim: inv_path_cameFrom)
    then show "\<exists>p d. cameFrom s c = Some p \<and> ((closedSet s)(?cur := True)) p
        \<and> gScore s p + 1 = enat n \<and> d \<in> set DIRS \<and> c = neighbour p d \<and> passage ctx c"
      by (intro exI [of _ p] exI [of _ d]) simp
  qed
  have opt1: "inv_opt ctx (Some ?cur) ?s1"
    unfolding inv_opt_def f1
  proof (intro conjI allI impI)
    fix c n
    assume a: "((closedSet s)(?cur := True)) c \<and> reach ctx n c"
    show "gScore s c \<le> enat n"
    proof (cases "c = ?cur")
      case True
      with a pop_optimal [OF h io iopt ne] show ?thesis by simp
    next
      case False
      with a have "closedSet s c" and "reach ctx n c" by simp_all
      with iopt show ?thesis by (rule inv_opt_closed)
    qed
  next
    fix c d
    assume a: "((closedSet s)(?cur := True)) c \<and> Some c \<noteq> Some ?cur \<and> d \<in> set DIRS
         \<and> passage ctx (neighbour c d) \<and> \<not> ((closedSet s)(?cur := True)) (neighbour c d)"
    then have "closedSet s c" and "\<not> closedSet s (neighbour c d)"
      and "d \<in> set DIRS" and "passage ctx (neighbour c d)"
      by (auto split: if_splits)
    with iopt show "gScore s (neighbour c d) \<le> gScore s c + 1"
      by (intro inv_opt_neighbour [where X = None]) simp_all
  qed
  have trace1: "inv_trace ctx (Some ?cur) ?s1"
    unfolding inv_trace_def f1
    using pop_trace [OF io it ne] rest
    by (auto simp add: pop_lowest_fields(5))
  from open1 path1 opt1 trace1 show ?thesis
    by (simp add: astar_inv_def pop_lowest_fields)
qed

subsection \<open>Visiting one neighbour keeps the invariant\<close>

lemma relax_inv:
  assumes h: "heuristic ctx = manhattan" and inv: "astar_inv ctx (Some cur) s"
    and d: "d \<in> set DIRS"
  shows "astar_inv ctx (Some cur) (relax ctx cur s d)"
proof (cases rule: relax_cases [of ctx cur s d])
  case same
  with inv show ?thesis by simp
next
  case better
  let ?n = "neighbour cur d"
  let ?s' = "relax ctx cur s d"
  from inv have io: "inv_open ctx s" and ip: "inv_path ctx s" and iopt: "inv_opt ctx (Some cur) s"
    and it: "inv_trace ctx (Some cur) s" and cl: "closedSet s cur"
    by (simp_all add: astar_inv_def)
  from io cl obtain k where k: "gScore s cur = enat k" by (auto elim: inv_open_finite)
  have lt: "enat (Suc k) < gScore s ?n" using better(3) k by (simp add: one_enat_def)
  have ncur: "?n \<noteq> cur" using better(2) cl by auto
  have g0: "gScore s (start_cell ctx) = 0" using io by (simp add: inv_open_def)
  have nstart: "?n \<noteq> start_cell ctx"
  proof
    assume "?n = start_cell ctx"
    with lt g0 show False by simp
  qed
  have f: "cameFrom ?s' = (cameFrom s)(?n := Some cur)"
    "gScore ?s' = (gScore s)(?n := enat (Suc k))"
    "fScore ?s' = (fScore s)(?n := enat (Suc k) + enat (h_cost ctx ?n))"
    "reasoning ?s' = reasoning s @ [Create (fst ?n) (snd ?n) (enat (Suc k)) (h_cost ctx ?n)]"
    "openSet ?s' = (if ?n \<in> set (openSet s) then openSet s else openSet s @ [?n])"
    "closedSet ?s' = closedSet s"
    by (simp_all add: better(4) k one_enat_def)
  have nb_in: "in_bounds ctx ?n" using better(1) by (simp add: passage_def)
  have open': "inv_open ctx ?s'"
    unfolding inv_open_def f
  proof (intro conjI)
    show "distinct (if ?n \<in> set (openSet s) then openSet s else openSet s @ [?n])"
      using io by (simp add: inv_open_def)
    show "\<forall>c \<in> set (if ?n \<in> set (openSet s) then openSet s else openSet s @ [?n]).
            \<not> closedSet s c \<and> in_bounds ctx c"
      using io better(2) nb_in by (auto simp add: inv_open_def)
    show "\<forall>c. (((gScore s)(?n := enat (Suc k))) c \<noteq> \<infinity>)
            = (c \<in> set (if ?n \<in> set (openSet s) then openSet s else openSet s @ [?n])
               \<or> closedSet s c)"
    proof
      fix c
      from io have "(gScore s c \<noteq> \<infinity>) = (c \<in> set (openSet s) \<or> closedSet s c)"
        unfolding inv_open_def by blast
      then show "(((gScore s)(?n := enat (Suc k))) c \<noteq> \<infinity>)
            = (c \<in> set (if ?n \<in> set (openSet s) then openSet s else openSet s @ [?n])
               \<or> closedSet s c)"
        by (cases "c = ?n") auto
    qed
    show "\<forall>c. closedSet s c \<longrightarrow> in_bounds ctx c"
      using io unfolding inv_open_def by blast
    show "\<forall>c. ((gScore s)(?n := enat (Suc k))) c \<noteq> \<infinity> \<longrightarrow>
            ((fScore s)(?n := enat (Suc k) + enat (h_cost ctx ?n))) c
              = ((gScore s)(?n := enat (Suc k))) c + enat (h_cost ctx c)"
    proof (intro allI impI)
      fix c
      assume a: "((gScore s)(?n := enat (Suc k))) c \<noteq> \<infinity>"
      show "((fScore s)(?n := enat (Suc k) + enat (h_cost ctx ?n))) c
              = ((gScore s)(?n := enat (Suc k))) c + enat (h_cost ctx c)"
      proof (cases "c = ?n")
        case True
        then show ?thesis by simp
      next
        case False
        with a have "gScore s c \<noteq> \<infinity>" by simp
        with io have "fScore s c = gScore s c + enat (h_cost ctx c)"
          unfolding inv_open_def by blast
        with False show ?thesis by simp
      qed
    qed
    show "\<not> closedSet s (goal_cell ctx)"
      using io by (simp add: inv_open_def)
    show "((gScore s)(?n := enat (Suc k))) (start_cell ctx) = 0"
      using g0 nstart by simp
  qed
  have path': "inv_path ctx ?s'"
    unfolding inv_path_def f
  proof (intro conjI allI impI)
    fix c m
    assume a: "((gScore s)(?n := enat (Suc k))) c = enat m"
    show "reach ctx m c"
    proof (cases "c = ?n")
      case True
      with a have m: "m = Suc k" by simp
      from ip k have "reach ctx k cur" by (rule inv_path_reach)
      then have "reach ctx (Suc k) ?n" using d better(1) by (rule reach_step)
      with True m show ?thesis by simp
    next
      case False
      with a have "gScore s c = enat m" by simp
      with ip show ?thesis by (rule inv_path_reach)
    qed
  next
    fix c m
    assume a: "((gScore s)(?n := enat (Suc k))) c = enat m \<and> c \<noteq> start_cell ctx"
    show "\<exists>p e. ((cameFrom s)(?n := Some cur)) c = Some p \<and> closedSet s p
            \<and> ((gScore s)(?n := enat (Suc k))) p + 1 = enat m
            \<and> e \<in> set DIRS \<and> c = neighbour p e \<and> passage ctx c"
    proof (cases "c = ?n")
      case True
      with a have m: "m = Suc k" by simp
      show ?thesis
        using True m cl ncur k d better(1)
        by (intro exI [of _ cur] exI [of _ d]) (simp add: one_enat_def)
    next
      case False
      with a have "gScore s c = enat m" and "c \<noteq> start_cell ctx" by simp_all
      with ip obtain p e where p: "cameFrom s c = Some p" "closedSet s p"
        "gScore s p + 1 = enat m" "e \<in> set DIRS" "c = neighbour p e" "passage ctx c"
        by (auto elim: inv_path_cameFrom)
      from p(2) better(2) have "p \<noteq> ?n" by auto
      with p False show ?thesis
        by (intro exI [of _ p] exI [of _ e]) simp
    qed
  qed
  have opt': "inv_opt ctx (Some cur) ?s'"
    unfolding inv_opt_def f
  proof (intro conjI allI impI)
    fix c m
    assume a: "closedSet s c \<and> reach ctx m c"
    then have "c \<noteq> ?n" using better(2) by auto
    moreover from iopt a have "gScore s c \<le> enat m" by (blast intro: inv_opt_closed)
    ultimately show "((gScore s)(?n := enat (Suc k))) c \<le> enat m" by simp
  next
    fix c e
    assume a: "closedSet s c \<and> Some c \<noteq> Some cur \<and> e \<in> set DIRS
        \<and> passage ctx (neighbour c e) \<and> \<not> closedSet s (neighbour c e)"
    then have cn: "c \<noteq> ?n" using better(2) by auto
    from a have a1: "closedSet s c" and a2: "Some c \<noteq> Some cur" and a3: "e \<in> set DIRS"
      and a4: "passage ctx (neighbour c e)" and a5: "\<not> closedSet s (neighbour c e)"
      by blast+
    have le: "gScore s (neighbour c e) \<le> gScore s c + 1"
      using iopt a1 a2 a3 a4 a5 by (rule inv_opt_neighbour)
    have "((gScore s)(?n := enat (Suc k))) (neighbour c e) \<le> gScore s (neighbour c e)"
      using lt by (auto simp add: less_imp_le)
    with le have "((gScore s)(?n := enat (Suc k))) (neighbour c e) \<le> gScore s c + 1"
      by (rule order_trans [rotated])
    with cn show "((gScore s)(?n := enat (Suc k))) (neighbour c e)
                    \<le> ((gScore s)(?n := enat (Suc k))) c + 1"
      by simp
  qed
  have cv: "close_values (reasoning s @ [Create (fst ?n) (snd ?n) (enat (Suc k)) (h_cost ctx ?n)])
              = close_values (reasoning s)"
    by (simp add: close_values_def close_events_def)
  have hc: "h_cost ctx cur \<le> Suc (h_cost ctx ?n)"
    using h d by (rule manhattan_consistent)
  have trace': "inv_trace ctx (Some cur) ?s'"
    unfolding inv_trace_def f cv
  proof (intro conjI)
    show "sorted (close_values (reasoning s))"
      using it by (simp add: inv_trace_def)
    have bound: "\<forall>v \<in> set (close_values (reasoning s)). v \<le> enat (k + h_cost ctx cur)"
      using it k by (simp add: inv_trace_def)
    show "\<forall>v \<in> set (close_values (reasoning s)).
            \<forall>c \<in> set (if ?n \<in> set (openSet s) then openSet s else openSet s @ [?n]).
              v \<le> ((fScore s)(?n := enat (Suc k) + enat (h_cost ctx ?n))) c"
    proof (intro ballI)
      fix v c
      assume v: "v \<in> set (close_values (reasoning s))"
        and c: "c \<in> set (if ?n \<in> set (openSet s) then openSet s else openSet s @ [?n])"
      show "v \<le> ((fScore s)(?n := enat (Suc k) + enat (h_cost ctx ?n))) c"
      proof (cases "c = ?n")
        case True
        from bound v have "v \<le> enat (k + h_cost ctx cur)" by blast
        also have "\<dots> \<le> enat (Suc k + h_cost ctx ?n)" using hc by simp
        finally show ?thesis using True by simp
      next
        case False
        with c have "c \<in> set (openSet s)" by (auto split: if_splits)
        with it v have "v \<le> fScore s c" unfolding inv_trace_def by blast
        with False show ?thesis by simp
      qed
    qed
    show "\<forall>c. Some cur = Some c \<longrightarrow>
            (\<forall>v \<in> set (close_values (reasoning s)).
               v \<le> ((gScore s)(?n := enat (Suc k))) c + enat (h_cost ctx c))"
      using bound k ncur by auto
    show "list_all (\<lambda>e. event_cost e \<noteq> \<infinity>)
            (reasoning s @ [Create (fst ?n) (snd ?n) (enat (Suc k)) (h_cost ctx ?n)])"
      using it by (simp add: inv_trace_def)
    show "reasoning s @ [Create (fst ?n) (snd ?n) (enat (Suc k)) (h_cost ctx ?n)] = []
            \<longrightarrow> (if ?n \<in> set (openSet s) then openSet s else openSet s @ [?n]) = [start_cell ctx]
                \<and> Some cur = None"
      by simp
    from it have "reasoning s \<noteq> []" by (auto simp add: inv_trace_def)
    with it show "reasoning s @ [Create (fst ?n) (snd ?n) (enat (Suc k)) (h_cost ctx ?n)] \<noteq> []
            \<longrightarrow> (\<exists>g h. hd (reasoning s @ [Create (fst ?n) (snd ?n) (enat (Suc k)) (h_cost ctx ?n)])
                          = Close (startX ctx) (startY ctx) g h)"
      by (simp add: inv_trace_def)
  qed
  from open' path' opt' trace' cl show ?thesis
    by (simp add: astar_inv_def f)
qed

subsection \<open>One pass of the loop, and the loop\<close>

lemma foldl_relax_inv:
  assumes h: "heuristic ctx = manhattan"
  shows "astar_inv ctx (Some cur) s \<Longrightarrow> set ds \<subseteq> set DIRS
         \<Longrightarrow> astar_inv ctx (Some cur) (foldl (relax ctx cur) s ds)"
proof (induction ds arbitrary: s)
  case Nil
  then show ?case by simp
next
  case (Cons d ds)
  from Cons.prems have "astar_inv ctx (Some cur) (relax ctx cur s d)"
    by (intro relax_inv [OF h]) simp_all
  with Cons.IH Cons.prems(2) show ?case by simp
qed

lemma expand_inv:
  assumes h: "heuristic ctx = manhattan" and inv: "astar_inv ctx None s"
    and ne: "openSet s \<noteq> []" and ng: "fst (pop_lowest ctx s) \<noteq> goal_cell ctx"
  shows "astar_inv ctx None (expand ctx (fst (pop_lowest ctx s)) (snd (pop_lowest ctx s)))"
    and "closedSet (expand ctx (fst (pop_lowest ctx s)) (snd (pop_lowest ctx s)))
           = (closedSet s)(fst (pop_lowest ctx s) := True)"
proof -
  let ?cur = "fst (pop_lowest ctx s)"
  let ?p = "snd (pop_lowest ctx s)"
  let ?s1 = "?p\<lparr> closedSet := (closedSet ?p)(?cur := True) \<rparr>"
  let ?s2 = "expand ctx ?cur ?p"
  have e: "?s2 = foldl (relax ctx ?cur) ?s1 DIRS" by (simp add: expand_def)
  have inv1: "astar_inv ctx (Some ?cur) ?s1" using h inv ne ng by (rule close_popped)
  have cl1: "closedSet ?s1 ?cur" by simp
  have inv2: "astar_inv ctx (Some ?cur) ?s2"
    unfolding e using inv1 by (rule foldl_relax_inv [OF h]) simp
  show cl2: "closedSet ?s2 = (closedSet s)(?cur := True)"
    unfolding e by (simp add: foldl_relax_closedSet pop_lowest_fields)
  have cls: "closedSet ?s2 = closedSet ?s1" unfolding e by (rule foldl_relax_closedSet)
  have gcur: "gScore ?s2 ?cur = gScore ?s1 ?cur"
    unfolding e using cl1 by (rule foldl_relax_gScore_closed)
  from inv2 have io: "inv_open ctx ?s2" and ip: "inv_path ctx ?s2"
    and iopt: "inv_opt ctx (Some ?cur) ?s2" and it: "inv_trace ctx (Some ?cur) ?s2"
    by (simp_all add: astar_inv_def)
  have opt: "inv_opt ctx None ?s2"
    unfolding inv_opt_def
  proof (intro conjI allI impI)
    fix c n
    assume "closedSet ?s2 c \<and> reach ctx n c"
    with iopt show "gScore ?s2 c \<le> enat n" by (blast intro: inv_opt_closed)
  next
    fix c d
    assume a: "closedSet ?s2 c \<and> Some c \<noteq> None \<and> d \<in> set DIRS
        \<and> passage ctx (neighbour c d) \<and> \<not> closedSet ?s2 (neighbour c d)"
    then have a1: "closedSet ?s2 c" and a3: "d \<in> set DIRS"
      and a4: "passage ctx (neighbour c d)" and a5: "\<not> closedSet ?s2 (neighbour c d)"
      by blast+
    show "gScore ?s2 (neighbour c d) \<le> gScore ?s2 c + 1"
    proof (cases "c = ?cur")
      case True
      from a5 have "\<not> closedSet ?s1 (neighbour ?cur d)" using True cls by simp
      with cl1 a3 a4 True
      have "gScore (foldl (relax ctx ?cur) ?s1 DIRS) (neighbour ?cur d) \<le> gScore ?s1 ?cur + 1"
        by (intro foldl_relax_gScore_neighbour) simp_all
      then show ?thesis using True gcur e by simp
    next
      case False
      then have "Some c \<noteq> Some ?cur" by simp
      with iopt a1 show ?thesis using a3 a4 a5 by (rule inv_opt_neighbour)
    qed
  qed
  have trace: "inv_trace ctx None ?s2"
    using it unfolding inv_trace_def by simp
  from io ip opt trace show "astar_inv ctx None ?s2"
    by (simp add: astar_inv_def)
qed

lemma astar_init_inv:
  assumes "in_bounds ctx (start_cell ctx)"
  shows "astar_inv ctx None (astar_init ctx)"
proof -
  have "inv_open ctx (astar_init ctx)"
    using assms by (auto simp add: inv_open_def astar_init_def start_cell_def h_cost_def zero_enat_def)
  moreover have "inv_path ctx (astar_init ctx)"
    by (auto simp add: inv_path_def astar_init_def start_cell_def zero_enat_def
          intro: reach_start [unfolded start_cell_def] split: if_splits)
  moreover have "inv_opt ctx None (astar_init ctx)"
    by (simp add: inv_opt_def astar_init_def)
  moreover have "inv_trace ctx None (astar_init ctx)"
    by (simp add: inv_trace_def astar_init_def start_cell_def close_values_def close_events_def)
  ultimately show ?thesis by (simp add: astar_inv_def)
qed

lemma astar_loop_total:
  assumes h: "heuristic ctx = manhattan" and r: "reach ctx n (goal_cell ctx)"
  shows "astar_inv ctx None s
     \<Longrightarrow> \<exists>s0. astar_inv ctx None s0 \<and> openSet s0 \<noteq> []
             \<and> fst (pop_lowest ctx s0) = goal_cell ctx
             \<and> astar_loop ctx s = Some (snd (pop_lowest ctx s0))"
proof (induction "card {c. in_bounds ctx c \<and> \<not> closedSet s c}" arbitrary: s rule: less_induct)
  case less
  let ?cur = "fst (pop_lowest ctx s)"
  let ?p = "snd (pop_lowest ctx s)"
  from less.prems have io: "inv_open ctx s" and iopt: "inv_opt ctx None s"
    by (simp_all add: astar_inv_def)
  from io have "\<not> closedSet s (goal_cell ctx)" by (simp add: inv_open_def)
  from open_bound [OF h io iopt r this] have ne: "openSet s \<noteq> []" by auto
  show ?case
  proof (cases "?cur = goal_cell ctx")
    case True
    then have "astar_loop ctx s = Some ?p"
      using ne by (subst astar_loop.simps) (simp add: goal_cell_def)
    with less.prems ne True show ?thesis by blast
  next
    case False
    let ?s2 = "expand ctx ?cur ?p"
    have inv2: "astar_inv ctx None ?s2" using h less.prems ne False by (rule expand_inv)
    have cl2: "closedSet ?s2 = (closedSet s)(?cur := True)"
      using h less.prems ne False by (rule expand_inv)
    have d: "distinct (openSet s)" using io by (simp add: inv_open_def)
    have cur: "?cur \<in> set (openSet s)" using ne d by (rule pop_lowest_sound)
    with io have curb: "in_bounds ctx ?cur" and curc: "\<not> closedSet s ?cur"
      unfolding inv_open_def by blast+
    have "{c. in_bounds ctx c \<and> \<not> closedSet ?s2 c} \<subset> {c. in_bounds ctx c \<and> \<not> closedSet s c}"
      using curb curc by (auto simp add: cl2)
    moreover have "finite {c. in_bounds ctx c \<and> \<not> closedSet s c}"
      by (rule finite_subset [OF _ finite_in_bounds [of ctx]]) auto
    ultimately have "card {c. in_bounds ctx c \<and> \<not> closedSet ?s2 c}
                       < card {c. in_bounds ctx c \<and> \<not> closedSet s c}"
      by (intro psubset_card_mono)
    from less.hyps [OF this inv2] obtain s0 where s0: "astar_inv ctx None s0" "openSet s0 \<noteq> []"
      "fst (pop_lowest ctx s0) = goal_cell ctx"
      "astar_loop ctx ?s2 = Some (snd (pop_lowest ctx s0))" by blast
    have "astar_loop ctx s = astar_loop ctx ?s2"
      using ne False by (subst astar_loop.simps) (simp add: goal_cell_def)
    with s0 show ?thesis by auto
  qed
qed

subsection \<open>The plan\<close>

lemma walk_back_plan:
  assumes io: "inv_open ctx s" and ip: "inv_path ctx s" and st: "passage ctx (start_cell ctx)"
  shows "gScore s c = enat n
     \<Longrightarrow> \<exists>q. walk_back (cameFrom s) (start_cell ctx) c path = Some (path @ q) \<and> length q = n
             \<and> passage_path ctx (start_cell ctx # rev q) \<and> last (start_cell ctx # rev q) = c"
proof (induction n arbitrary: c path)
  case 0
  have "c = start_cell ctx"
  proof (rule ccontr)
    assume "c \<noteq> start_cell ctx"
    with ip 0 obtain p where "gScore s p + 1 = enat 0" by (auto elim: inv_path_cameFrom)
    then show False by (cases "gScore s p") (simp_all add: one_enat_def)
  qed
  then have "walk_back (cameFrom s) (start_cell ctx) c path = Some path"
    by (subst walk_back.simps) simp
  with st \<open>c = start_cell ctx\<close> show ?case by simp
next
  case (Suc n)
  have g0: "gScore s (start_cell ctx) = 0" using io by (simp add: inv_open_def)
  with Suc.prems have ns: "c \<noteq> start_cell ctx" by (auto simp add: zero_enat_def)
  with ip Suc.prems obtain p d where p: "cameFrom s c = Some p" "gScore s p + 1 = enat (Suc n)"
    "d \<in> set DIRS" "c = neighbour p d" "passage ctx c"
    by (auto elim: inv_path_cameFrom)
  from p(2) have "gScore s p = enat n"
    by (cases "gScore s p") (simp_all add: one_enat_def)
  from Suc.IH [OF this, of "path @ [c]"] obtain q where
    q: "walk_back (cameFrom s) (start_cell ctx) p (path @ [c]) = Some ((path @ [c]) @ q)"
      "length q = n" "passage_path ctx (start_cell ctx # rev q)"
      "last (start_cell ctx # rev q) = p" by blast
  have w: "walk_back (cameFrom s) (start_cell ctx) c path = Some (path @ (c # q))"
    using ns p(1) q(1) by (subst walk_back.simps) simp
  have adj: "adjacent (last (start_cell ctx # rev q)) c"
    using p(3,4) q(4) by (auto simp add: adjacent_neighbour)
  have "passage_path ctx ((start_cell ctx # rev q) @ [c])"
    using q(3) adj p(5) by (rule passage_path_snoc)
  then have "passage_path ctx (start_cell ctx # rev (c # q))" by simp
  with w q(2) show ?case by (intro exI [of _ "c # q"]) simp
qed

lemma solvable_reach:
  assumes "passage_path ctx p" and "hd p = start_cell ctx"
  shows "p \<noteq> []" and "passage ctx (start_cell ctx)" and "reach ctx (length p - 1) (last p)"
proof -
  from assms(1) show ne: "p \<noteq> []" by (cases p) simp_all
  then obtain cs where p: "p = start_cell ctx # cs" using assms(2) by (cases p) simp_all
  with assms(1) show "passage ctx (start_cell ctx)" by (simp add: passage_path_hd)
  from passage_path_reach [OF reach_start, of ctx cs] assms(1) p
  show "reach ctx (length p - 1) (last p)" by simp
qed

lemma solveSync_solvable:
  assumes wf: "well_formed ctx" and sol: "solvable ctx"
  shows "\<exists>s0 q k. astar_inv ctx None s0 \<and> openSet s0 \<noteq> []
           \<and> fst (pop_lowest ctx s0) = goal_cell ctx
           \<and> solveSync ctx = Some (reasoning (snd (pop_lowest ctx s0)), start_cell ctx # rev q)
           \<and> gScore s0 (goal_cell ctx) = enat k \<and> length q = k
           \<and> passage_path ctx (start_cell ctx # rev q)
           \<and> last (start_cell ctx # rev q) = goal_cell ctx"
proof -
  from wf have h: "heuristic ctx = manhattan" by (simp add: well_formed_def)
  from sol obtain p where p: "passage_path ctx p" "hd p = start_cell ctx" "last p = goal_cell ctx"
    unfolding solvable_def by blast
  from solvable_reach [OF p(1,2)] p(3)
  have st: "passage ctx (start_cell ctx)" and r: "reach ctx (length p - 1) (goal_cell ctx)"
    by simp_all
  from st have "in_bounds ctx (start_cell ctx)" by (simp add: passage_def)
  then have "astar_inv ctx None (astar_init ctx)" by (rule astar_init_inv)
  from astar_loop_total [OF h r this] obtain s0 where s0: "astar_inv ctx None s0"
    "openSet s0 \<noteq> []" "fst (pop_lowest ctx s0) = goal_cell ctx"
    "astar_loop ctx (astar_init ctx) = Some (snd (pop_lowest ctx s0))" by blast
  from s0(1) have io: "inv_open ctx s0" and ip: "inv_path ctx s0" by (simp_all add: astar_inv_def)
  have d: "distinct (openSet s0)" using io by (simp add: inv_open_def)
  have "fst (pop_lowest ctx s0) \<in> set (openSet s0)" using s0(2) d by (rule pop_lowest_sound)
  with s0(3) have "goal_cell ctx \<in> set (openSet s0)" by simp
  with io obtain k where k: "gScore s0 (goal_cell ctx) = enat k" by (auto elim: inv_open_finite)
  from walk_back_plan [OF io ip st k, of "[]"] obtain q where
    q: "walk_back (cameFrom s0) (start_cell ctx) (goal_cell ctx) [] = Some q" "length q = k"
      "passage_path ctx (start_cell ctx # rev q)" "last (start_cell ctx # rev q) = goal_cell ctx"
    by auto
  have "solveSync ctx = Some (reasoning (snd (pop_lowest ctx s0)), start_cell ctx # rev q)"
    using s0(4) q(1)
    by (simp add: solveSync_def reconstructPathInternal_def pop_lowest_fields
          start_cell_def goal_cell_def)
  with s0 k q show ?thesis by blast
qed

subsection \<open>The plan is a shortest path\<close>

lemma solveSync_ring:
  "solveSync (solver_ctx 3 3 \<lparr> grid = [[1, 1, 1], [1, 0, 1], [1, 1, 1]],
       startX = 0, startY = 0, goalX = 2, goalY = 2 \<rparr>)
   = Some ([Close 0 0 0 4, Create 1 0 1 3, Create 0 1 1 3, Close 1 0 1 3,
            Create 2 0 2 2, Close 0 1 1 3, Create 0 2 2 2, Close 2 0 2 2,
            Create 2 1 3 1, Close 0 2 2 2, Create 1 2 3 1, Close 2 1 3 1,
            Create 2 2 4 0, Close 1 2 3 1, Close 2 2 4 0],
           [(0, 0), (1, 0), (2, 0), (2, 1), (2, 2)])"
  by code_simp

lemma solveSync_detour:
  "solveSync (solver_ctx 3 3 \<lparr> grid = [[1, 1, 1], [0, 0, 1], [1, 1, 1]],
       startX = 0, startY = 0, goalX = 0, goalY = 2 \<rparr>)
   = Some ([Close 0 0 0 2, Create 1 0 1 3, Close 1 0 1 3, Create 2 0 2 4,
            Close 2 0 2 4, Create 2 1 3 3, Close 2 1 3 3, Create 2 2 4 2,
            Close 2 2 4 2, Create 1 2 5 1, Close 1 2 5 1, Create 0 2 6 0,
            Close 0 2 6 0],
           [(0, 0), (1, 0), (2, 0), (2, 1), (2, 2), (1, 2), (0, 2)])"
  by code_simp

text \<open>
  Claim C6: for every grid and every start and goal that some 4-connected path of passage
  cells joins, \<^verbatim>\<open>solveSync\<close> with the Manhattan heuristic returns, and its plan is a
  shortest such path: the plan starts at the start, ends at the goal, moves by one step
  between neighbouring passage cells, and no path of passage cells from the start to the
  goal has fewer cells. Lengths are counted in cells on both sides, the start and the goal
  included, as \<^verbatim>\<open>plan.length\<close> counts them.
\<close>

theorem C6_plan_is_shortest:
  assumes "well_formed ctx" and "solvable ctx"
  shows "\<exists>trace plan. solveSync ctx = Some (trace, plan)
           \<and> passage_path ctx plan \<and> hd plan = start_cell ctx \<and> last plan = goal_cell ctx
           \<and> (\<forall>p. passage_path ctx p \<and> hd p = start_cell ctx \<and> last p = goal_cell ctx
                  \<longrightarrow> length plan \<le> length p)"
proof -
  from assms(1) have h: "heuristic ctx = manhattan" by (simp add: well_formed_def)
  from solveSync_solvable [OF assms] obtain s0 q k where
    inv: "astar_inv ctx None s0" and ne: "openSet s0 \<noteq> []"
    and cur: "fst (pop_lowest ctx s0) = goal_cell ctx"
    and res: "solveSync ctx = Some (reasoning (snd (pop_lowest ctx s0)), start_cell ctx # rev q)"
    and k: "gScore s0 (goal_cell ctx) = enat k" and len: "length q = k"
    and path: "passage_path ctx (start_cell ctx # rev q)"
    and last: "last (start_cell ctx # rev q) = goal_cell ctx" by blast
  from inv have io: "inv_open ctx s0" and iopt: "inv_opt ctx None s0"
    by (simp_all add: astar_inv_def)
  have "length (start_cell ctx # rev q) \<le> length p"
    if p: "passage_path ctx p \<and> hd p = start_cell ctx \<and> last p = goal_cell ctx" for p
  proof -
    from p have "p \<noteq> []" and "reach ctx (length p - 1) (fst (pop_lowest ctx s0))"
      using solvable_reach [of ctx p] cur by simp_all
    with pop_optimal [OF h io iopt ne] k cur have "k \<le> length p - 1" by simp
    with \<open>p \<noteq> []\<close> len show ?thesis by (cases p) simp_all
  qed
  with res path last show ?thesis by (intro exI conjI) (assumption | simp)+
qed

theorem C6_plan_is_shortest_witness:
  "well_formed (solver_ctx 3 3 \<lparr> grid = [[1, 1, 1], [1, 0, 1], [1, 1, 1]],
       startX = 0, startY = 0, goalX = 2, goalY = 2 \<rparr>)
   \<and> solvable (solver_ctx 3 3 \<lparr> grid = [[1, 1, 1], [1, 0, 1], [1, 1, 1]],
       startX = 0, startY = 0, goalX = 2, goalY = 2 \<rparr>)
   \<and> map_option snd (solveSync (solver_ctx 3 3 \<lparr> grid = [[1, 1, 1], [1, 0, 1], [1, 1, 1]],
       startX = 0, startY = 0, goalX = 2, goalY = 2 \<rparr>))
       = Some [(0, 0), (1, 0), (2, 0), (2, 1), (2, 2)]
   \<and> passage_path (solver_ctx 3 3 \<lparr> grid = [[1, 1, 1], [1, 0, 1], [1, 1, 1]],
       startX = 0, startY = 0, goalX = 2, goalY = 2 \<rparr>) [(0, 0), (1, 0), (2, 0), (2, 1), (2, 2)]
   \<and> passage_path (solver_ctx 3 3 \<lparr> grid = [[1, 1, 1], [1, 0, 1], [1, 1, 1]],
       startX = 0, startY = 0, goalX = 2, goalY = 2 \<rparr>) [(0, 0), (0, 1), (0, 2), (1, 2), (2, 2)]
   \<and> length ([(0, 0), (1, 0), (2, 0), (2, 1), (2, 2)] :: cell list)
       \<le> length ([(0, 0), (0, 1), (0, 2), (1, 2), (2, 2)] :: cell list)"
proof -
  let ?C = "solver_ctx 3 3 \<lparr> grid = [[1, 1, 1], [1, 0, 1], [1, 1, 1]],
       startX = 0, startY = 0, goalX = 2, goalY = 2 \<rparr>"
  let ?plan = "[(0, 0), (1, 0), (2, 0), (2, 1), (2, 2)] :: cell list"
  let ?other = "[(0, 0), (0, 1), (0, 2), (1, 2), (2, 2)] :: cell list"
  have wf: "well_formed ?C"
    by (simp add: well_formed_def solver_ctx_def)
  have o: "passage_path ?C ?other" by code_simp
  have o1: "hd ?other = start_cell ?C" by code_simp
  have o2: "last ?other = goal_cell ?C" by code_simp
  from o o1 o2 have other:
    "passage_path ?C ?other \<and> hd ?other = start_cell ?C \<and> last ?other = goal_cell ?C"
    by (intro conjI)
  have sol: "solvable ?C"
    unfolding solvable_def by (rule exI [where x = ?other]) (rule other)
  from C6_plan_is_shortest [OF wf sol] obtain trace plan where
    res: "solveSync ?C = Some (trace, plan)" and path: "passage_path ?C plan"
    and least: "\<forall>p. passage_path ?C p \<and> hd p = start_cell ?C \<and> last p = goal_cell ?C
                  \<longrightarrow> length plan \<le> length p" by blast
  from trans [OF res [symmetric] solveSync_ring] have plan: "plan = ?plan"
    by (simp only: option.inject prod.inject)
  have r: "map_option snd (solveSync ?C) = Some ?plan"
    by (simp only: solveSync_ring option.map snd_conv)
  from least other have "length plan \<le> length ?other" by blast
  then have l: "length ?plan \<le> length ?other" by (simp only: plan)
  from path have p: "passage_path ?C ?plan" by (simp only: plan)
  from wf sol r p o l show ?thesis by (intro conjI)
qed

subsection \<open>The close events of the reasoning trace\<close>

text \<open>
  Claim C7: for every input on which some path of passage cells joins the start and the
  goal, \<^verbatim>\<open>solveSync\<close> with the Manhattan heuristic returns a trace whose first close event
  is for the start cell and whose last close event, the last event of the trace, is for
  the goal cell; the values \<open>g + h\<close> of the close events, taken in order up to and
  including that of the goal, never decrease, and every cost in the trace is a number.
\<close>

theorem C7_close_events:
  assumes "well_formed ctx" and "solvable ctx"
  shows "\<exists>trace plan. solveSync ctx = Some (trace, plan)
           \<and> close_events trace \<noteq> []
           \<and> event_cell (hd (close_events trace)) = start_cell ctx
           \<and> event_cell (last (close_events trace)) = goal_cell ctx
           \<and> last trace = last (close_events trace)
           \<and> sorted (close_values trace)
           \<and> list_all (\<lambda>e. event_cost e \<noteq> \<infinity>) trace"
proof -
  from solveSync_solvable [OF assms] obtain s0 q where
    inv: "astar_inv ctx None s0" and ne: "openSet s0 \<noteq> []"
    and cur: "fst (pop_lowest ctx s0) = goal_cell ctx"
    and res: "solveSync ctx = Some (reasoning (snd (pop_lowest ctx s0)), start_cell ctx # rev q)"
    by blast
  let ?trace = "reasoning (snd (pop_lowest ctx s0))"
  let ?e = "Close (goalX ctx) (goalY ctx) (gScore s0 (goal_cell ctx)) (h_cost ctx (goal_cell ctx))"
  from inv have io: "inv_open ctx s0" and it: "inv_trace ctx None s0"
    by (simp_all add: astar_inv_def)
  have t: "?trace = reasoning s0 @ [?e]"
    using cur by (simp add: pop_lowest_fields goal_cell_def)
  have ce: "close_events ?trace = close_events (reasoning s0) @ [?e]"
    unfolding t by (simp add: close_events_def)
  from pop_trace(4) [OF io it ne] obtain g h where hd: "hd ?trace = Close (startX ctx) (startY ctx) g h"
    by blast
  have "?trace \<noteq> []" unfolding t by simp
  with hd obtain rest where "?trace = Close (startX ctx) (startY ctx) g h # rest"
    by (cases ?trace) simp_all
  then have first: "event_cell (hd (close_events ?trace)) = start_cell ctx"
    by (simp add: close_events_def start_cell_def)
  have lst: "event_cell (last (close_events ?trace)) = goal_cell ctx"
    unfolding ce by (simp add: goal_cell_def)
  have lst': "last ?trace = last (close_events ?trace)"
    unfolding ce unfolding t by simp
  have ne': "close_events ?trace \<noteq> []" unfolding ce by simp
  from res ne' first lst lst' pop_trace(2) [OF io it ne] pop_trace(5) [OF io it ne]
  show ?thesis by blast
qed

theorem C7_close_events_witness:
  "well_formed (solver_ctx 3 3 \<lparr> grid = [[1, 1, 1], [0, 0, 1], [1, 1, 1]],
       startX = 0, startY = 0, goalX = 0, goalY = 2 \<rparr>)
   \<and> solvable (solver_ctx 3 3 \<lparr> grid = [[1, 1, 1], [0, 0, 1], [1, 1, 1]],
       startX = 0, startY = 0, goalX = 0, goalY = 2 \<rparr>)
   \<and> map_option fst (solveSync (solver_ctx 3 3 \<lparr> grid = [[1, 1, 1], [0, 0, 1], [1, 1, 1]],
       startX = 0, startY = 0, goalX = 0, goalY = 2 \<rparr>))
       = Some [Close 0 0 0 2, Create 1 0 1 3, Close 1 0 1 3, Create 2 0 2 4,
               Close 2 0 2 4, Create 2 1 3 3, Close 2 1 3 3, Create 2 2 4 2,
               Close 2 2 4 2, Create 1 2 5 1, Close 1 2 5 1, Create 0 2 6 0,
               Close 0 2 6 0]
   \<and> close_values [Close 0 0 0 2, Create 1 0 1 3, Close 1 0 1 3, Create 2 0 2 4,
               Close 2 0 2 4, Create 2 1 3 3, Close 2 1 3 3, Create 2 2 4 2,
               Close 2 2 4 2, Create 1 2 5 1, Close 1 2 5 1, Create 0 2 6 0,
               Close 0 2 6 0] = [2, 4, 6, 6, 6, 6, 6]
   \<and> sorted (close_values [Close 0 0 0 2, Create 1 0 1 3, Close 1 0 1 3, Create 2 0 2 4,
               Close 2 0 2 4, Create 2 1 3 3, Close 2 1 3 3, Create 2 2 4 2,
               Close 2 2 4 2, Create 1 2 5 1, Close 1 2 5 1, Create 0 2 6 0,
               Close 0 2 6 0])"
proof -
  let ?C = "solver_ctx 3 3 \<lparr> grid = [[1, 1, 1], [0, 0, 1], [1, 1, 1]],
       startX = 0, startY = 0, goalX = 0, goalY = 2 \<rparr>"
  let ?trace = "[Close 0 0 0 2, Create 1 0 1 3, Close 1 0 1 3, Create 2 0 2 4,
               Close 2 0 2 4, Create 2 1 3 3, Close 2 1 3 3, Create 2 2 4 2,
               Close 2 2 4 2, Create 1 2 5 1, Close 1 2 5 1, Create 0 2 6 0,
               Close 0 2 6 0]"
  let ?path = "[(0, 0), (1, 0), (2, 0), (2, 1), (2, 2), (1, 2), (0, 2)] :: cell list"
  have wf: "well_formed ?C"
    by (simp add: well_formed_def solver_ctx_def)
  have p0: "passage_path ?C ?path" by code_simp
  have p1: "hd ?path = start_cell ?C" by code_simp
  have p2: "last ?path = goal_cell ?C" by code_simp
  from p0 p1 p2 have path:
    "passage_path ?C ?path \<and> hd ?path = start_cell ?C \<and> last ?path = goal_cell ?C"
    by (intro conjI)
  have sol: "solvable ?C"
    unfolding solvable_def by (rule exI [where x = ?path]) (rule path)
  from C7_close_events [OF wf sol] obtain trace plan where
    res: "solveSync ?C = Some (trace, plan)" and sorted: "sorted (close_values trace)" by blast
  from trans [OF res [symmetric] solveSync_detour] have trace: "trace = ?trace"
    by (simp only: option.inject prod.inject)
  have r: "map_option fst (solveSync ?C) = Some ?trace"
    by (simp only: solveSync_detour option.map fst_conv)
  from sorted have s: "sorted (close_values ?trace)" by (simp only: trace)
  have v: "close_values ?trace = [2, 4, 6, 6, 6, 6, 6]" by code_simp
  from wf sol r v s show ?thesis by (intro conjI)
qed

end
